theory Spec2Isabelle
  imports Complex_Main "HOL-Library.AList"
begin

section \<open>TokenBucket (src/utils/token-bucket.ts)\<close>

text \<open>
  The bucket's four private fields.  JavaScript numbers are taken as real numbers (the
  specification calls the level real-valued); every reading of \<open>Date.now()\<close> is an explicit
  argument \<open>now\<close> of the operation that performs it.  A refill time of 0, where JavaScript
  divides to \<open>Infinity\<close> or \<open>NaN\<close>, is outside the model; default arguments (\<open>count = 1\<close>,
  \<open>weight = 1\<close>) are supplied by the caller.
\<close>

record TokenBucket =
  tokens :: real
  maxTokens :: real
  refillRate :: real
  lastRefill :: real

definition TokenBucket_new :: "real \<Rightarrow> real \<Rightarrow> real \<Rightarrow> TokenBucket" where
  "TokenBucket_new now maxTokens' refillTimeMs =
     \<lparr>tokens = maxTokens', maxTokens = maxTokens',
      refillRate = maxTokens' / refillTimeMs, lastRefill = now\<rparr>"

definition refill :: "real \<Rightarrow> TokenBucket \<Rightarrow> TokenBucket" where
  "refill now b =
     (let elapsedMs = now - lastRefill b in
      if elapsedMs > 0 then
        (let newTokens = elapsedMs * refillRate b in
         b\<lparr>tokens := min (maxTokens b) (tokens b + newTokens), lastRefill := now\<rparr>)
      else b)"

definition takeTokens :: "real \<Rightarrow> real \<Rightarrow> TokenBucket \<Rightarrow> bool \<times> TokenBucket" where
  "takeTokens now count b =
     (let b1 = refill now b in
      if tokens b1 \<ge> count then (True, b1\<lparr>tokens := tokens b1 - count\<rparr>)
      else (False, b1))"

definition getTokens :: "real \<Rightarrow> TokenBucket \<Rightarrow> real \<times> TokenBucket" where
  "getTokens now b = (let b1 = refill now b in (tokens b1, b1))"

definition getWaitTimeMs :: "real \<Rightarrow> real \<Rightarrow> TokenBucket \<Rightarrow> real \<times> TokenBucket" where
  "getWaitTimeMs now count b =
     (let b1 = refill now b;
          additionalTokensNeeded = max 0 (count - tokens b1) in
      if additionalTokensNeeded = 0 then (0, b1)
      else (of_int \<lceil>additionalTokensNeeded / refillRate b1\<rceil>, b1))"

text \<open>A caller's view of the bucket: a sequence of public calls, each with its clock reading.\<close>

datatype tb_call = TakeTokens real | GetTokens | GetWaitTimeMs real

fun tb_exec :: "TokenBucket \<Rightarrow> real \<times> tb_call \<Rightarrow> TokenBucket" where
  "tb_exec b (now, TakeTokens count) = snd (takeTokens now count b)"
| "tb_exec b (now, GetTokens) = snd (getTokens now b)"
| "tb_exec b (now, GetWaitTimeMs count) = snd (getWaitTimeMs now count b)"













section \<open>RateLimiter (src/rate-limiter.ts)\<close>

record RateLimiterOptions =
  tokensPerInterval :: real
  intervalInMs :: real
  opt_maxWaitTimeMs :: "real option"
  opt_autoWait :: "bool option"

record RateLimiter =
  bucket :: TokenBucket
  maxWaitTimeMs :: real
  autoWait :: bool

text \<open>\<open>x || d\<close> on an optional number: \<open>undefined\<close> and \<open>0\<close> are falsy and give the default.\<close>

definition num_or :: "real option \<Rightarrow> real \<Rightarrow> real" where
  "num_or x d = (case x of None \<Rightarrow> d | Some v \<Rightarrow> if v = 0 then d else v)"

definition RateLimiter_new :: "real \<Rightarrow> RateLimiterOptions \<Rightarrow> RateLimiter" where
  "RateLimiter_new now options =
     \<lparr>bucket = TokenBucket_new now (tokensPerInterval options) (intervalInMs options),
      maxWaitTimeMs = num_or (opt_maxWaitTimeMs options) 60000,
      autoWait = (case opt_autoWait options of Some a \<Rightarrow> a | None \<Rightarrow> True)\<rparr>"

text \<open>
  \<open>acquireToken\<close> reads the clock at its first \<open>takeTokens\<close> (\<open>t1\<close>), at
  \<open>getWaitTimeMs\<close> (\<open>t2\<close>) and at the retry after the timeout (\<open>t3\<close>).  While the caller is
  suspended other consumers may use the bucket; \<open>others\<close> is their combined effect on it.
  The result carries the answer, the duration handed to \<open>setTimeout\<close> when the caller was
  suspended, and the limiter afterwards.
\<close>

definition acquireToken ::
  "real \<Rightarrow> real \<Rightarrow> real \<Rightarrow> (TokenBucket \<Rightarrow> TokenBucket) \<Rightarrow> real \<Rightarrow> RateLimiter
     \<Rightarrow> bool \<times> real option \<times> RateLimiter" where
  "acquireToken t1 t2 t3 others weight rl =
     (case takeTokens t1 weight (bucket rl) of
        (True, b1) \<Rightarrow> (True, None, rl\<lparr>bucket := b1\<rparr>)
      | (False, b1) \<Rightarrow>
          if \<not> autoWait rl then (False, None, rl\<lparr>bucket := b1\<rparr>)
          else (case getWaitTimeMs t2 weight b1 of
                  (waitTime, b2) \<Rightarrow>
                    if waitTime > maxWaitTimeMs rl then (False, None, rl\<lparr>bucket := b2\<rparr>)
                    else (case takeTokens t3 weight (others b2) of
                            (ok, b3) \<Rightarrow> (ok, Some waitTime, rl\<lparr>bucket := b3\<rparr>))))"

section \<open>Similarity (src/utils/similarity.ts)\<close>

text \<open>
  A JavaScript string is a sequence of code units; the edit distance and the similarity only
  compare code units and count them, so they are modelled over lists of any element type.

  \<open>levenshteinDistance\<close> builds its table by array assignments.  \<open>set_at xs j v\<close> is the
  assignment \<open>xs[j] = v\<close>; the function only ever writes an existing index or the index just
  past the end, where JavaScript extends the array by one element.
\<close>

definition set_at :: "'x list \<Rightarrow> nat \<Rightarrow> 'x \<Rightarrow> 'x list" where
  "set_at xs j v = (if j < length xs then xs[j := v] else xs @ [v])"

definition set_cell :: "nat list list \<Rightarrow> nat \<Rightarrow> nat \<Rightarrow> nat \<Rightarrow> nat list list" where
  "set_cell matrix i j v = matrix[i := set_at (matrix ! i) j v]"

definition lev_cell :: "'a list \<Rightarrow> 'a list \<Rightarrow> nat list list \<Rightarrow> nat \<Rightarrow> nat \<Rightarrow> nat list list" where
  "lev_cell a b matrix i j =
     (let cost = (if a ! (j - 1) = b ! (i - 1) then 0 else 1) in
      set_cell matrix i j
        (min (min (matrix ! (i - 1) ! j + 1) (matrix ! i ! (j - 1) + 1))
             (matrix ! (i - 1) ! (j - 1) + cost)))"

definition lev_row :: "'a list \<Rightarrow> 'a list \<Rightarrow> nat list list \<Rightarrow> nat \<Rightarrow> nat list list" where
  "lev_row a b matrix i = foldl (\<lambda>m j. lev_cell a b m i j) matrix [1..<Suc (length a)]"

definition levenshteinDistance :: "'a list \<Rightarrow> 'a list \<Rightarrow> nat" where
  "levenshteinDistance a b =
     (let matrix0 = foldl (\<lambda>m i. set_at m i [i]) [] [0..<Suc (length b)];
          matrix1 = foldl (\<lambda>m j. set_cell m 0 j j) matrix0 [0..<Suc (length a)];
          matrix2 = foldl (lev_row a b) matrix1 [1..<Suc (length b)]
      in matrix2 ! length b ! length a)"

text \<open>An empty string is the only falsy string, so \<open>!a\<close> is \<open>a = []\<close>.\<close>

definition calculateSimilarity :: "'a list \<Rightarrow> 'a list \<Rightarrow> real" where
  "calculateSimilarity a b =
     (if a = b then 1
      else if a = [] \<or> b = [] then 0
      else (let distance = levenshteinDistance a b;
                maxLength = max (length a) (length b) in
            if maxLength = 0 then 1
            else 1 - real distance / real maxLength))"

text \<open>
  The reference definition, written from the specification's words: 1 when the strings are
  equal, 0 when exactly one of them is empty, otherwise one minus the edit distance divided
  by the longer length.
\<close>

definition similarity_spec :: "'a list \<Rightarrow> 'a list \<Rightarrow> real" where
  "similarity_spec a b =
     (if a = b then 1
      else if (a = []) \<noteq> (b = []) then 0
      else 1 - real (levenshteinDistance a b) / real (max (length a) (length b)))"

text \<open>
  The table while the rows are being filled: rows below \<open>r\<close> are complete and bounded by
  \<open>max i j\<close>, rows from \<open>r\<close> on still hold only their first cell.
\<close>

definition lev_shape :: "nat \<Rightarrow> nat \<Rightarrow> nat \<Rightarrow> nat list list \<Rightarrow> bool" where
  "lev_shape n k r m =
     (length m = Suc k
      \<and> (\<forall>i<r. length (m ! i) = Suc n \<and> (\<forall>j\<le>n. m ! i ! j \<le> max i j))
      \<and> (\<forall>i. r \<le> i \<and> i \<le> k \<longrightarrow> m ! i = [i]))"


text \<open>
  \<open>normalizePrompt\<close> is \<open>prompt.trim().toLowerCase().replace(/\\s+/g, ' ')\<close>.  Strings are
  modelled as \<open>string\<close>, one \<open>char\<close> per code unit, which covers the code units 0 to 255
  (Latin-1).  In that range the white space of \<open>trim\<close> and of \<open>\\s\<close> is TAB, LF, VT, FF, CR,
  SPACE and NBSP, and \<open>toLowerCase\<close> adds 32 to A-Z and to U+00C0-U+00DE except U+00D7.
\<close>

definition is_space :: "char \<Rightarrow> bool" where
  "is_space c = (c \<in> {CHR 0x09, CHR 0x0A, CHR 0x0B, CHR 0x0C, CHR 0x0D, CHR 0x20, CHR 0xA0})"

definition toLowerCase_char :: "char \<Rightarrow> char" where
  "toLowerCase_char c =
     (let n = (of_char c :: nat) in
      if (65 \<le> n \<and> n \<le> 90) \<or> (192 \<le> n \<and> n \<le> 222 \<and> n \<noteq> 215)
      then char_of (n + 32) else c)"

definition toLowerCase :: "string \<Rightarrow> string" where
  "toLowerCase s = map toLowerCase_char s"

definition trim :: "string \<Rightarrow> string" where
  "trim s = rev (dropWhile is_space (rev (dropWhile is_space s)))"

function replace_spaces :: "string \<Rightarrow> string" where
  "replace_spaces [] = []"
| "replace_spaces (c # cs) =
     (if is_space c then CHR '' '' # replace_spaces (dropWhile is_space cs)
      else c # replace_spaces cs)"
  by pat_completeness auto
termination
  by (relation "measure length") (auto simp: le_imp_less_Suc length_dropWhile_le)

definition normalizePrompt :: "string \<Rightarrow> string" where
  "normalizePrompt prompt = replace_spaces (toLowerCase (trim prompt))"

section \<open>AICache (src/cache.ts)\<close>

record 'r CacheEntry =
  response :: 'r
  timestamp :: real
  prompt :: string

record CacheOptions =
  opt_maxSize :: "real option"
  opt_ttlMs :: "real option"
  opt_similarityThreshold :: "real option"
  opt_enableFuzzyMatching :: "bool option"

text \<open>
  The \<open>Map\<close> iterates in insertion order, \<open>Map.set\<close> on a present key keeps its position and
  on a new key appends, so the map is an association list in insertion order:
  \<open>map_of\<close> is \<open>Map.get\<close>, \<open>AList.update\<close> is \<open>Map.set\<close>, \<open>AList.delete\<close> is \<open>Map.delete\<close>.
\<close>

record 'r AICache =
  cache :: "(string \<times> 'r CacheEntry) list"
  maxSize :: real
  ttlMs :: real
  similarityThreshold :: real
  enableFuzzyMatching :: bool

text \<open>The constructor's parameter defaults to \<open>{}\<close>, the options with every field absent.\<close>

definition no_options :: CacheOptions where
  "no_options = \<lparr>opt_maxSize = None, opt_ttlMs = None, opt_similarityThreshold = None,
                  opt_enableFuzzyMatching = None\<rparr>"

definition AICache_new :: "CacheOptions \<Rightarrow> 'r AICache" where
  "AICache_new options =
     \<lparr>cache = [],
      maxSize = num_or (opt_maxSize options) 1000,
      ttlMs = num_or (opt_ttlMs options) 3600000,
      similarityThreshold = num_or (opt_similarityThreshold options) (95 / 100),
      enableFuzzyMatching =
        (case opt_enableFuzzyMatching options of Some f \<Rightarrow> f | None \<Rightarrow> True)\<rparr>"

text \<open>
  The similar-match loop of \<open>get\<close> over the entries present when it starts; \<open>clk key\<close> is the
  clock reading taken when the entry \<open>key\<close> is visited.  Deleting the visited entry does not
  disturb the rest of the iteration.
\<close>

fun fuzzy_scan ::
  "(string \<Rightarrow> real) \<Rightarrow> real \<Rightarrow> real \<Rightarrow> string \<Rightarrow> (string \<times> 'r CacheEntry) list
     \<Rightarrow> (string \<times> 'r CacheEntry) list \<Rightarrow> 'r option \<times> (string \<times> 'r CacheEntry) list" where
  "fuzzy_scan clk ttl thr normalizedPrompt [] m = (None, m)"
| "fuzzy_scan clk ttl thr normalizedPrompt ((key, entry) # rest) m =
     (if clk key - timestamp entry \<ge> ttl
      then fuzzy_scan clk ttl thr normalizedPrompt rest (AList.delete key m)
      else if calculateSimilarity normalizedPrompt key \<ge> thr then (Some (response entry), m)
      else fuzzy_scan clk ttl thr normalizedPrompt rest m)"

definition similar_match ::
  "(string \<Rightarrow> real) \<Rightarrow> string \<Rightarrow> 'r AICache \<Rightarrow> 'r option \<times> 'r AICache" where
  "similar_match clk normalizedPrompt c =
     (if enableFuzzyMatching c \<and> similarityThreshold c < 1
      then (case fuzzy_scan clk (ttlMs c) (similarityThreshold c) normalizedPrompt
                   (cache c) (cache c) of
              (r, m) \<Rightarrow> (r, c\<lparr>cache := m\<rparr>))
      else (None, c))"

text \<open>\<open>get\<close>: the answer (\<open>None\<close> is \<open>null\<close>) and the cache afterwards.\<close>

definition AICache_get ::
  "real \<Rightarrow> (string \<Rightarrow> real) \<Rightarrow> string \<Rightarrow> 'r AICache \<Rightarrow> 'r option \<times> 'r AICache" where
  "AICache_get now clk prompt' c =
     (let normalizedPrompt = normalizePrompt prompt' in
      case map_of (cache c) normalizedPrompt of
        Some entry \<Rightarrow>
          if now - timestamp entry < ttlMs c then (Some (response entry), c)
          else similar_match clk normalizedPrompt
                 (c\<lparr>cache := AList.delete normalizedPrompt (cache c)\<rparr>)
      | None \<Rightarrow> similar_match clk normalizedPrompt c)"

text \<open>
  The search for the oldest entry in \<open>set\<close>.  \<open>oldestKey\<close> starts as \<open>null\<close> (\<open>None\<close>) and
  \<open>oldestTime\<close> as \<open>Infinity\<close> (\<open>None\<close>), which every timestamp is below.
\<close>

fun oldest_scan ::
  "(string \<times> 'r CacheEntry) list \<Rightarrow> string option \<times> real option
     \<Rightarrow> string option \<times> real option" where
  "oldest_scan [] acc = acc"
| "oldest_scan ((key, entry) # rest) (oldestKey, oldestTime) =
     (if (case oldestTime of None \<Rightarrow> True | Some t \<Rightarrow> timestamp entry < t)
      then oldest_scan rest (Some key, Some (timestamp entry))
      else oldest_scan rest (oldestKey, oldestTime))"

definition oldest_key :: "(string \<times> 'r CacheEntry) list \<Rightarrow> string option" where
  "oldest_key m = fst (oldest_scan m (None, None))"

text \<open>\<open>if (oldestKey)\<close> tests truthiness: \<open>null\<close> and the empty string both fail it.\<close>

definition AICache_set :: "real \<Rightarrow> string \<Rightarrow> 'r \<Rightarrow> 'r AICache \<Rightarrow> 'r AICache" where
  "AICache_set now prompt' response' c =
     (let normalizedPrompt = normalizePrompt prompt';
          m = (if real (length (cache c)) \<ge> maxSize c
                  \<and> map_of (cache c) normalizedPrompt = None
               then (case oldest_key (cache c) of
                       Some oldestKey \<Rightarrow>
                         if oldestKey \<noteq> [] then AList.delete oldestKey (cache c) else cache c
                     | None \<Rightarrow> cache c)
               else cache c)
      in c\<lparr>cache := AList.update normalizedPrompt
             \<lparr>response = response', timestamp = now, prompt = normalizedPrompt\<rparr> m\<rparr>)"

definition cache_size :: "'r AICache \<Rightarrow> nat" where
  "cache_size c = length (cache c)"

text \<open>Entries stored before \<open>key\<close> in iteration order.\<close>

definition entries_before :: "string \<Rightarrow> (string \<times> 'r CacheEntry) list \<Rightarrow> (string \<times> 'r CacheEntry) list" where
  "entries_before key m = takeWhile (\<lambda>e. fst e \<noteq> key) m"

text \<open>The configuration of the eviction example: only \<open>maxSize: 2\<close> is given.\<close>

definition two_entry_options :: CacheOptions where
  "two_entry_options = no_options\<lparr>opt_maxSize := Some 2\<rparr>"

section \<open>RequestBatcher (src/batcher.ts)\<close>

text \<open>
  A queued request.  \<open>q_id n\<close> stands for the string \<open>req_n\<close>.  Each call of \<open>addRequest\<close>
  creates one promise and increments \<open>idCounter\<close> once, so the same number also names the
  promise whose \<open>resolve\<close> and \<open>reject\<close> the request carries.
\<close>

record 'o QueuedRequest =
  q_id :: nat
  q_prompt :: string
  q_options :: 'o
  q_timestamp :: real

text \<open>
  What a promise is settled with: \<open>resolve(results[index])\<close>, where an index past the end
  of \<open>results\<close> reads \<open>undefined\<close> (\<open>None\<close>), or \<open>reject(error)\<close>, where the error is either
  the value \<open>processBatchFn\<close> failed with or the \<open>new Error(reason)\<close> of \<open>clearQueue\<close>.
\<close>

datatype 'e failure = Error string | Thrown 'e

datatype ('r, 'e) settlement = Resolved "'r option" | Rejected "'e failure"

text \<open>How the promise returned by \<open>processBatchFn\<close> settles.\<close>

datatype ('r, 'e) outcome = Fulfilled "'r list" | Failed 'e

record BatcherOptions =
  opt_maxBatchSize :: "real option"
  opt_maxDelayMs :: "real option"
  opt_maxTokensPerBatch :: "real option"

text \<open>
  The fields of the class, and after them what the run-time holds for it: the timeouts
  pending in the event loop (handle and delay), the next handle \<open>setTimeout\<close> will return
  (handles are truthy), the local \<open>batch\<close> of the \<open>processBatch\<close> call suspended at its \<open>await\<close>,
  the batches handed to \<open>processBatchFn\<close> so far and the calls of \<open>resolve\<close> and \<open>reject\<close> so
  far, both oldest first.
\<close>

record ('o, 'r, 'e) RequestBatcher =
  queue :: "'o QueuedRequest list"
  maxBatchSize :: real
  maxDelayMs :: real
  maxTokensPerBatch :: real
  batchTimer :: "nat option"
  isProcessing :: bool
  idCounter :: nat
  timers :: "(nat \<times> real) list"
  nextTimer :: nat
  inflight :: "'o QueuedRequest list option"
  batches :: "'o QueuedRequest list list"
  settled :: "(nat \<times> ('r, 'e) settlement) list"

definition RequestBatcher_new :: "BatcherOptions \<Rightarrow> ('o, 'r, 'e) RequestBatcher" where
  "RequestBatcher_new opts =
     \<lparr>queue = [],
      maxBatchSize = num_or (opt_maxBatchSize opts) 20,
      maxDelayMs = num_or (opt_maxDelayMs opts) 100,
      maxTokensPerBatch = num_or (opt_maxTokensPerBatch opts) 4096,
      batchTimer = None, isProcessing = False, idCounter = 0,
      timers = [], nextTimer = 1, inflight = None, batches = [], settled = []\<rparr>"

text \<open>The arguments \<open>processBatchFn\<close> was called with, one pair per batch.\<close>

definition calls :: "('o, 'r, 'e) RequestBatcher \<Rightarrow> (string list \<times> 'o list) list" where
  "calls s = map (\<lambda>batch. (map q_prompt batch, map q_options batch)) (batches s)"

text \<open>\<open>this.batchTimer = setTimeout(() => this.processBatch(), delay)\<close> and \<open>clearTimeout\<close>.\<close>

definition arm_timer ::
  "real \<Rightarrow> ('o, 'r, 'e) RequestBatcher \<Rightarrow> ('o, 'r, 'e) RequestBatcher" where
  "arm_timer delay s =
     s\<lparr>batchTimer := Some (nextTimer s), timers := timers s @ [(nextTimer s, delay)],
       nextTimer := Suc (nextTimer s)\<rparr>"

definition clearTimeout ::
  "nat option \<Rightarrow> ('o, 'r, 'e) RequestBatcher \<Rightarrow> ('o, 'r, 'e) RequestBatcher" where
  "clearTimeout handle s = s\<lparr>timers := filter (\<lambda>t. Some (fst t) \<noteq> handle) (timers s)\<rparr>"

text \<open>
  \<open>processBatch\<close> up to its \<open>await\<close>: \<open>splice(0, maxBatchSize)\<close> removes the first
  \<open>maxBatchSize\<close> items, the count truncated to a whole number and a negative count taken
  as 0, and \<open>processBatchFn\<close> is called with their prompts and options.
\<close>

definition processBatch :: "('o, 'r, 'e) RequestBatcher \<Rightarrow> ('o, 'r, 'e) RequestBatcher" where
  "processBatch s =
     (if isProcessing s \<or> queue s = [] then s
      else (let deleteCount = nat \<lfloor>maxBatchSize s\<rfloor>;
                batch = take deleteCount (queue s) in
            s\<lparr>isProcessing := True, batchTimer := None,
              queue := drop deleteCount (queue s),
              inflight := Some batch, batches := batches s @ [batch]\<rparr>))"

definition nth_opt :: "'a list \<Rightarrow> nat \<Rightarrow> 'a option" where
  "nth_opt xs i = (if i < length xs then Some (xs ! i) else None)"

text \<open>
  The rest of \<open>processBatch\<close>, run when the awaited promise settles: the \<open>forEach\<close> of the
  \<open>try\<close> or of the \<open>catch\<close> block, then the \<open>finally\<close> block.  A \<open>processBatchFn\<close> that throws
  instead of returning a promise takes the same path with \<open>Failed\<close>.
\<close>

definition settle_batch ::
  "('r, 'e) outcome \<Rightarrow> 'o QueuedRequest list \<Rightarrow> (nat \<times> ('r, 'e) settlement) list" where
  "settle_batch out batch =
     (case out of
        Fulfilled results \<Rightarrow>
          map (\<lambda>(item, index). (q_id item, Resolved (nth_opt results index)))
              (zip batch [0..<length batch])
      | Failed error \<Rightarrow> map (\<lambda>item. (q_id item, Rejected (Thrown error))) batch)"

definition processBatch_resume ::
  "('r, 'e) outcome \<Rightarrow> ('o, 'r, 'e) RequestBatcher \<Rightarrow> ('o, 'r, 'e) RequestBatcher" where
  "processBatch_resume out s =
     (case inflight s of
        None \<Rightarrow> s
      | Some batch \<Rightarrow>
          (let s1 = s\<lparr>settled := settled s @ settle_batch out batch,
                      inflight := None, isProcessing := False\<rparr>
           in if queue s1 \<noteq> [] then arm_timer 0 s1 else s1))"

text \<open>\<open>addRequest\<close> returns the number of the new promise and the batcher afterwards.\<close>

definition addRequest ::
  "string \<Rightarrow> 'o \<Rightarrow> real \<Rightarrow> ('o, 'r, 'e) RequestBatcher \<Rightarrow> nat \<times> ('o, 'r, 'e) RequestBatcher" where
  "addRequest prompt' options now s =
     (let n = Suc (idCounter s);
          s1 = s\<lparr>idCounter := n,
                  queue := queue s @ [\<lparr>q_id = n, q_prompt = prompt', q_options = options,
                                       q_timestamp = now\<rparr>]\<rparr>;
          s2 = (if batchTimer s1 = None \<and> \<not> isProcessing s1
                then arm_timer (maxDelayMs s1) s1 else s1);
          s3 = (if real (length (queue s2)) \<ge> maxBatchSize s2 \<and> \<not> isProcessing s2
                then processBatch ((clearTimeout (batchTimer s2) s2)\<lparr>batchTimer := None\<rparr>)
                else s2)
      in (n, s3))"

definition clearQueue ::
  "string \<Rightarrow> ('o, 'r, 'e) RequestBatcher \<Rightarrow> ('o, 'r, 'e) RequestBatcher" where
  "clearQueue reason s =
     (let error = Error reason;
          s1 = s\<lparr>settled := settled s @ map (\<lambda>request. (q_id request, Rejected error)) (queue s),
                  queue := []\<rparr>
      in if batchTimer s1 \<noteq> None then (clearTimeout (batchTimer s1) s1)\<lparr>batchTimer := None\<rparr>
         else s1)"

definition queueSize :: "('o, 'r, 'e) RequestBatcher \<Rightarrow> nat" where
  "queueSize s = length (queue s)"

text \<open>
  What can happen to a batcher: a caller's \<open>addRequest\<close> (with the clock reading it takes)
  or \<open>clearQueue\<close>, a pending timeout firing, the promise of \<open>processBatchFn\<close> settling.  A
  timeout that is not pending cannot fire and a promise that is not awaited cannot settle:
  those events leave the batcher as it is.
\<close>

datatype ('o, 'r, 'e) event =
    AddRequest string 'o real
  | ClearQueue string
  | TimerFires nat
  | BatchSettles "('r, 'e) outcome"

fun step :: "('o, 'r, 'e) RequestBatcher \<Rightarrow> ('o, 'r, 'e) event \<Rightarrow> ('o, 'r, 'e) RequestBatcher" where
  "step s (AddRequest prompt' options now) = snd (addRequest prompt' options now s)"
| "step s (ClearQueue reason) = clearQueue reason s"
| "step s (TimerFires handle) =
     (if handle \<in> fst ` set (timers s)
      then processBatch (s\<lparr>timers := filter (\<lambda>t. fst t \<noteq> handle) (timers s)\<rparr>)
      else s)"
| "step s (BatchSettles out) = processBatch_resume out s"

definition run ::
  "('o, 'r, 'e) RequestBatcher \<Rightarrow> ('o, 'r, 'e) event list \<Rightarrow> ('o, 'r, 'e) RequestBatcher" where
  "run s evs = foldl step s evs"

text \<open>
  One round of the event loop with no new callers: the armed timeout, if any, fires, and
  the promise of the batch in flight, if any, settles with \<open>out\<close>.
\<close>

definition fire :: "('o, 'r, 'e) RequestBatcher \<Rightarrow> ('o, 'r, 'e) RequestBatcher" where
  "fire s = (case batchTimer s of Some handle \<Rightarrow> step s (TimerFires handle) | None \<Rightarrow> s)"

definition advance ::
  "('o, 'r, 'e) RequestBatcher \<Rightarrow> ('r, 'e) outcome \<Rightarrow> ('o, 'r, 'e) RequestBatcher" where
  "advance s out = step (fire s) (BatchSettles out)"

definition drain ::
  "('o, 'r, 'e) RequestBatcher \<Rightarrow> ('r, 'e) outcome list \<Rightarrow> ('o, 'r, 'e) RequestBatcher" where
  "drain s outs = foldl advance s outs"

text \<open>The same round when \<open>processBatchFn\<close> is the function \<open>f\<close> of its arguments.\<close>

definition serve ::
  "(string list \<Rightarrow> 'o list \<Rightarrow> ('r, 'e) outcome) \<Rightarrow> ('o, 'r, 'e) RequestBatcher
     \<Rightarrow> ('o, 'r, 'e) RequestBatcher" where
  "serve f s =
     (let s1 = fire s in
      case inflight s1 of
        None \<Rightarrow> s1
      | Some batch \<Rightarrow> step s1 (BatchSettles (f (map q_prompt batch) (map q_options batch))))"

text \<open>Requests that are waiting: pulled into the batch in flight, or still queued.\<close>

definition pending :: "('o, 'r, 'e) RequestBatcher \<Rightarrow> 'o QueuedRequest list" where
  "pending s = (case inflight s of None \<Rightarrow> [] | Some batch \<Rightarrow> batch) @ queue s"

definition settled_ids :: "('o, 'r, 'e) RequestBatcher \<Rightarrow> nat list" where
  "settled_ids s = map fst (settled s)"

text \<open>How often the promise \<open>n\<close> has been resolved or rejected.\<close>

definition resolutions :: "('o, 'r, 'e) RequestBatcher \<Rightarrow> nat \<Rightarrow> nat" where
  "resolutions s n = length (filter (\<lambda>x. fst x = n) (settled s))"

definition quiescent :: "('o, 'r, 'e) RequestBatcher \<Rightarrow> bool" where
  "quiescent s = (queue s = [] \<and> inflight s = None \<and> timers s = [] \<and> \<not> isProcessing s)"

text \<open>
  The coordination invariant between queue, timer and the call in flight, and the
  bookkeeping of request numbers: every number handed out so far is settled, in flight or
  queued, in exactly one place and once.
\<close>

definition coordinated :: "('o, 'r, 'e) RequestBatcher \<Rightarrow> bool" where
  "coordinated s =
     ((isProcessing s = (inflight s \<noteq> None))
      \<and> (if isProcessing s then batchTimer s = None
          else (batchTimer s = None) = (queue s = []))
      \<and> map fst (timers s) = (case batchTimer s of None \<Rightarrow> [] | Some handle \<Rightarrow> [handle]))"

definition accounted :: "('o, 'r, 'e) RequestBatcher \<Rightarrow> bool" where
  "accounted s =
     (distinct (settled_ids s @ map q_id (pending s))
      \<and> set (settled_ids s @ map q_id (pending s)) = {1..idCounter s})"

text \<open>The requests of the \<open>addRequest\<close> events of a trace, numbered from \<open>n + 1\<close>.\<close>

fun enqueued :: "nat \<Rightarrow> ('o, 'r, 'e) event list \<Rightarrow> 'o QueuedRequest list" where
  "enqueued n [] = []"
| "enqueued n (AddRequest prompt' options now # evs) =
     \<lparr>q_id = Suc n, q_prompt = prompt', q_options = options, q_timestamp = now\<rparr>
       # enqueued (Suc n) evs"
| "enqueued n (_ # evs) = enqueued n evs"

fun is_clear :: "('o, 'r, 'e) event \<Rightarrow> bool" where
  "is_clear (ClearQueue _) = True"
| "is_clear _ = False"

text \<open>
  What the log of batches satisfies: sizes within the \<open>splice\<close> count, the batch in flight
  is the last one logged, and logged and queued requests are in the order of their numbers.
\<close>

definition dispatch_logged :: "('o, 'r, 'e) RequestBatcher \<Rightarrow> bool" where
  "dispatch_logged s =
     ((\<forall>b\<in>set (batches s). length b \<le> nat \<lfloor>maxBatchSize s\<rfloor> \<and> (1 \<le> maxBatchSize s \<longrightarrow> b \<noteq> []))
      \<and> (case inflight s of None \<Rightarrow> True
          | Some batch \<Rightarrow> batches s \<noteq> [] \<and> last (batches s) = batch)
      \<and> sorted_wrt (<) (map q_id (concat (batches s) @ queue s))
      \<and> (\<forall>r\<in>set (concat (batches s) @ queue s). q_id r \<le> idCounter s))"

text \<open>
  Data for the examples: a \<open>processBatchFn\<close> that echoes its prompts, \<open>n\<close> requests with
  prompts "a", "aa", ... enqueued one after the other, options that only set
  \<open>maxBatchSize\<close>, a trace that mixes failure, refill of the queue and \<open>clearQueue\<close>, and
  the 25 requests followed by the first batch succeeding and the zero-delay timer firing.
\<close>

definition echo :: "string list \<Rightarrow> unit list \<Rightarrow> (string, string) outcome" where
  "echo prompts optionsArray = Fulfilled prompts"

definition enqueue_many :: "nat \<Rightarrow> (unit, string, string) event list" where
  "enqueue_many n = map (\<lambda>i. AddRequest (replicate (Suc i) CHR ''a'') () (real i)) [0..<n]"

definition limit_of :: "real \<Rightarrow> BatcherOptions" where
  "limit_of m = \<lparr>opt_maxBatchSize = Some m, opt_maxDelayMs = None, opt_maxTokensPerBatch = None\<rparr>"

definition mixed_trace :: "(unit, string, string) event list" where
  "mixed_trace =
     [AddRequest ''a'' () 0, AddRequest ''b'' () 1, AddRequest ''c'' () 2,
      BatchSettles (Failed ''down''), AddRequest ''d'' () 3, AddRequest ''e'' () 4,
      ClearQueue ''stop'']"

definition second_batch_trace :: "(unit, string, string) event list" where
  "second_batch_trace =
     enqueue_many 25
     @ [BatchSettles (echo (map q_prompt (take 10 (enqueued 0 (enqueue_many 25))))
                           (replicate 10 ())),
        TimerFires 2]"

section \<open>TokenBucket: level bounds\<close>


lemma refill_consts [simp]:
  "maxTokens (refill now b) = maxTokens b" "refillRate (refill now b) = refillRate b"
  by (simp_all add: refill_def Let_def)

lemma tb_exec_consts [simp]:
  "maxTokens (tb_exec b c) = maxTokens b" "refillRate (tb_exec b c) = refillRate b"
  by (cases c; cases "snd c";
      simp add: takeTokens_def getTokens_def getWaitTimeMs_def Let_def)+






text \<open>
  C9 (as amended).  When the refilled level is below \<open>n\<close>, \<open>takeTokens\<close> answers failure and
  leaves the bucket exactly as the lazy refill leaves it: nothing is subtracted, capacity and
  rate are untouched, the level observable at that instant is the same before and after, and
  when no time has passed since the last refill no field changes at all.
\<close>

theorem takeTokens_failure_only_refills:
  assumes "tokens (refill now b) < n"
  shows "\<not> fst (takeTokens now n b)
       \<and> snd (takeTokens now n b) = refill now b
       \<and> maxTokens (snd (takeTokens now n b)) = maxTokens b
       \<and> refillRate (snd (takeTokens now n b)) = refillRate b
       \<and> fst (getTokens now (snd (takeTokens now n b))) = fst (getTokens now b)
       \<and> (now \<le> lastRefill b \<longrightarrow> snd (takeTokens now n b) = b)"
proof -
  have t: "takeTokens now n b = (False, refill now b)"
    using assms by (simp add: takeTokens_def Let_def)
  have idem: "refill now (refill now b) = refill now b"
    by (simp add: refill_def Let_def)
  have same: "refill now b = b" if "now \<le> lastRefill b"
    using that by (simp add: refill_def Let_def)
  show ?thesis using same by (simp add: t idem getTokens_def Let_def)
qed

theorem takeTokens_failure_only_refills_witness:
  "tokens (refill 100 \<lparr>tokens = 0, maxTokens = 10, refillRate = 1/100, lastRefill = 0\<rparr>) < 5
   \<and> \<not> fst (takeTokens 100 5 \<lparr>tokens = 0, maxTokens = 10, refillRate = 1/100, lastRefill = 0\<rparr>)
   \<and> snd (takeTokens 100 5 \<lparr>tokens = 0, maxTokens = 10, refillRate = 1/100, lastRefill = 0\<rparr>)
       = \<lparr>tokens = 1, maxTokens = 10, refillRate = 1/100, lastRefill = 100\<rparr>
   \<and> fst (getTokens 100
          (snd (takeTokens 100 5 \<lparr>tokens = 0, maxTokens = 10, refillRate = 1/100, lastRefill = 0\<rparr>)))
       = fst (getTokens 100 \<lparr>tokens = 0, maxTokens = 10, refillRate = 1/100, lastRefill = 0\<rparr>)
   \<and> tokens (refill 100 \<lparr>tokens = 1, maxTokens = 10, refillRate = 1/100, lastRefill = 100\<rparr>) < 5
   \<and> (100::real) \<le> lastRefill \<lparr>tokens = 1, maxTokens = 10, refillRate = 1/100, lastRefill = 100\<rparr>
   \<and> snd (takeTokens 100 5 \<lparr>tokens = 1, maxTokens = 10, refillRate = 1/100, lastRefill = 100\<rparr>)
       = \<lparr>tokens = 1, maxTokens = 10, refillRate = 1/100, lastRefill = 100\<rparr>"
proof -
  let ?b = "\<lparr>tokens = 0, maxTokens = 10, refillRate = 1/100, lastRefill = 0\<rparr> :: TokenBucket"
  let ?c = "\<lparr>tokens = 1, maxTokens = 10, refillRate = 1/100, lastRefill = 100\<rparr> :: TokenBucket"
  have r: "refill 100 ?b = ?c" by (simp add: refill_def Let_def)
  have h: "tokens (refill 100 ?b) < 5" by (simp add: r)
  have h': "tokens (refill 100 ?c) < 5" by (simp add: refill_def Let_def)
  have le: "(100::real) \<le> lastRefill ?c" by simp
  note first = takeTokens_failure_only_refills[OF h]
  note again = takeTokens_failure_only_refills[OF h']
  have a: "\<not> fst (takeTokens 100 5 ?b)" by (rule first[THEN conjunct1])
  have b: "snd (takeTokens 100 5 ?b) = ?c"
    using first[THEN conjunct2, THEN conjunct1] by (simp only: r)
  have c: "fst (getTokens 100 (snd (takeTokens 100 5 ?b))) = fst (getTokens 100 ?b)"
    using first by blast
  have d: "snd (takeTokens 100 5 ?c) = ?c"
    using again le by blast
  show ?thesis by (intro conjI h a b c h' le d)
qed

text \<open>
  C9, the claim as written fails: a bucket emptied at time 0 and asked for 5 tokens at time
  100 answers failure, yet its stored level and its refill timestamp have both changed.
\<close>

theorem takeTokens_failure_mutates_counterexample:
  "snd (takeTokens 0 10 (TokenBucket_new 0 10 1000))
     = \<lparr>tokens = 0, maxTokens = 10, refillRate = 1/100, lastRefill = 0\<rparr>
   \<and> \<not> fst (takeTokens 100 5 (snd (takeTokens 0 10 (TokenBucket_new 0 10 1000))))
   \<and> snd (takeTokens 100 5 (snd (takeTokens 0 10 (TokenBucket_new 0 10 1000))))
     = \<lparr>tokens = 1, maxTokens = 10, refillRate = 1/100, lastRefill = 100\<rparr>
   \<and> snd (takeTokens 100 5 (snd (takeTokens 0 10 (TokenBucket_new 0 10 1000))))
     \<noteq> snd (takeTokens 0 10 (TokenBucket_new 0 10 1000))"
  by (simp add: takeTokens_def refill_def TokenBucket_new_def Let_def)

section \<open>RateLimiter: the outcome of acquireToken\<close>

text \<open>
  C4.  \<open>acquireToken\<close> grants when the immediate \<open>takeTokens\<close> succeeds.  Otherwise it denies
  exactly when \<open>autoWait\<close> is off, or the computed wait exceeds \<open>maxWaitTimeMs\<close>, or the retry
  after the wait fails; when it does wait, its answer is the answer of that single retry and
  the bucket it leaves is the one that retry leaves, so no further attempt is made.
\<close>

theorem acquireToken_outcome:
  "(fst (takeTokens t1 w (bucket rl)) \<longrightarrow>
      acquireToken t1 t2 t3 others w rl
        = (True, None, rl\<lparr>bucket := snd (takeTokens t1 w (bucket rl))\<rparr>))
   \<and> (\<not> fst (takeTokens t1 w (bucket rl)) \<longrightarrow>
       (\<not> fst (acquireToken t1 t2 t3 others w rl)) =
         (\<not> autoWait rl
          \<or> fst (getWaitTimeMs t2 w (snd (takeTokens t1 w (bucket rl)))) > maxWaitTimeMs rl
          \<or> \<not> fst (takeTokens t3 w
                 (others (snd (getWaitTimeMs t2 w (snd (takeTokens t1 w (bucket rl)))))))))
   \<and> (\<not> fst (takeTokens t1 w (bucket rl)) \<and> autoWait rl
        \<and> fst (getWaitTimeMs t2 w (snd (takeTokens t1 w (bucket rl)))) \<le> maxWaitTimeMs rl \<longrightarrow>
       acquireToken t1 t2 t3 others w rl
        = (fst (takeTokens t3 w
                 (others (snd (getWaitTimeMs t2 w (snd (takeTokens t1 w (bucket rl))))))),
           Some (fst (getWaitTimeMs t2 w (snd (takeTokens t1 w (bucket rl))))),
           rl\<lparr>bucket := snd (takeTokens t3 w
                 (others (snd (getWaitTimeMs t2 w (snd (takeTokens t1 w (bucket rl)))))))\<rparr>))
   \<and> (\<not> fst (takeTokens t1 w (bucket rl))
        \<and> (\<not> autoWait rl
           \<or> fst (getWaitTimeMs t2 w (snd (takeTokens t1 w (bucket rl)))) > maxWaitTimeMs rl) \<longrightarrow>
       fst (acquireToken t1 t2 t3 others w rl) = False
        \<and> fst (snd (acquireToken t1 t2 t3 others w rl)) = None)"
  by (auto simp: acquireToken_def split: prod.splits bool.splits)

theorem acquireToken_outcome_witness:
  "fst (takeTokens 0 1 (bucket (RateLimiter_new 0
        \<lparr>tokensPerInterval = 1, intervalInMs = 60000,
         opt_maxWaitTimeMs = None, opt_autoWait = Some False\<rparr>)))
   \<and> acquireToken 0 0 0 id 1 (RateLimiter_new 0
        \<lparr>tokensPerInterval = 1, intervalInMs = 60000,
         opt_maxWaitTimeMs = None, opt_autoWait = Some False\<rparr>)
     = (True, None, \<lparr>bucket = \<lparr>tokens = 0, maxTokens = 1, refillRate = 1/60000, lastRefill = 0\<rparr>,
                     maxWaitTimeMs = 60000, autoWait = False\<rparr>)
   \<and> \<not> fst (takeTokens 0 1 \<lparr>tokens = 0, maxTokens = 1, refillRate = 1/60000, lastRefill = 0\<rparr>)
   \<and> \<not> fst (acquireToken 0 0 0 id 1
        \<lparr>bucket = \<lparr>tokens = 0, maxTokens = 1, refillRate = 1/60000, lastRefill = 0\<rparr>,
         maxWaitTimeMs = 60000, autoWait = False\<rparr>)
   \<and> fst (snd (acquireToken 0 0 0 id 1
        \<lparr>bucket = \<lparr>tokens = 0, maxTokens = 1, refillRate = 1/60000, lastRefill = 0\<rparr>,
         maxWaitTimeMs = 60000, autoWait = False\<rparr>)) = None
   \<and> fst (getWaitTimeMs 0 1 \<lparr>tokens = 0, maxTokens = 1, refillRate = 1/60000, lastRefill = 0\<rparr>)
       \<le> 60000
   \<and> acquireToken 0 0 60000 id 1
        \<lparr>bucket = \<lparr>tokens = 0, maxTokens = 1, refillRate = 1/60000, lastRefill = 0\<rparr>,
         maxWaitTimeMs = 60000, autoWait = True\<rparr>
     = (True, Some 60000,
        \<lparr>bucket = \<lparr>tokens = 0, maxTokens = 1, refillRate = 1/60000, lastRefill = 60000\<rparr>,
         maxWaitTimeMs = 60000, autoWait = True\<rparr>)"
proof -
  let ?e = "\<lparr>tokens = 0, maxTokens = 1, refillRate = 1/60000, lastRefill = 0\<rparr> :: TokenBucket"
  let ?new = "RateLimiter_new 0 \<lparr>tokensPerInterval = 1, intervalInMs = 60000,
         opt_maxWaitTimeMs = None, opt_autoWait = Some False\<rparr>"
  have new: "?new = \<lparr>bucket = \<lparr>tokens = 1, maxTokens = 1, refillRate = 1/60000, lastRefill = 0\<rparr>,
                     maxWaitTimeMs = 60000, autoWait = False\<rparr>"
    by (simp add: RateLimiter_new_def TokenBucket_new_def num_or_def)
  have t0: "takeTokens 0 1 \<lparr>tokens = 1, maxTokens = 1, refillRate = 1/60000, lastRefill = 0\<rparr>
            = (True, ?e)"
    by (simp add: takeTokens_def refill_def Let_def)
  have t1: "takeTokens 0 1 ?e = (False, ?e)"
    by (simp add: takeTokens_def refill_def Let_def)
  have w: "getWaitTimeMs 0 1 ?e = (60000, ?e)"
    by (simp add: getWaitTimeMs_def refill_def Let_def)
  have t3: "takeTokens 60000 1 ?e = (True, ?e\<lparr>lastRefill := 60000\<rparr>)"
    by (simp add: takeTokens_def refill_def Let_def)
  from acquireToken_outcome[of 0 1 ?new 0 0 id]
  have a: "acquireToken 0 0 0 id 1 ?new = (True, None, ?new\<lparr>bucket := ?e\<rparr>)"
    by (simp add: new t0)
  from acquireToken_outcome[of 0 1 "\<lparr>bucket = ?e, maxWaitTimeMs = 60000, autoWait = False\<rparr>" 0 0 id]
  have b: "\<not> fst (acquireToken 0 0 0 id 1 \<lparr>bucket = ?e, maxWaitTimeMs = 60000, autoWait = False\<rparr>)"
    by (simp add: t1)
  from acquireToken_outcome[of 0 1 "\<lparr>bucket = ?e, maxWaitTimeMs = 60000, autoWait = False\<rparr>" 0 0 id]
  have b': "fst (snd (acquireToken 0 0 0 id 1 \<lparr>bucket = ?e, maxWaitTimeMs = 60000, autoWait = False\<rparr>)) = None"
    by (simp add: t1)
  from acquireToken_outcome[of 0 1 "\<lparr>bucket = ?e, maxWaitTimeMs = 60000, autoWait = True\<rparr>" 0 60000 id]
  have c: "acquireToken 0 0 60000 id 1 \<lparr>bucket = ?e, maxWaitTimeMs = 60000, autoWait = True\<rparr>
     = (True, Some 60000, \<lparr>bucket = ?e\<lparr>lastRefill := 60000\<rparr>, maxWaitTimeMs = 60000, autoWait = True\<rparr>)"
    by (simp add: t1 w t3)
  show ?thesis using a b b' c by (simp add: new t0 t1 w)
qed

section \<open>Similarity: agreement with the reference definition, and range\<close>

lemma init_rows: "foldl (\<lambda>m i. set_at m i [i]) [] [0..<r] = map (\<lambda>i. [i]) [0..<r]"
  by (induction r) (simp_all add: set_at_def)

lemma init_row0:
  assumes "m ! 0 = [0]" "0 < length m"
  shows "foldl (\<lambda>m j. set_cell m 0 j j) m [0..<Suc c] = m[0 := [0..<Suc c]]"
proof (induction c)
  case 0
  have "m[0 := [0]] = m" using assms by (metis list_update_id)
  then show ?case using assms by (simp add: set_cell_def set_at_def)
next
  case (Suc c)
  have "foldl (\<lambda>m j. set_cell m 0 j j) m [0..<Suc (Suc c)]
        = set_cell (foldl (\<lambda>m j. set_cell m 0 j j) m [0..<Suc c]) 0 (Suc c) (Suc c)"
    by (simp del: upt_Suc add: upt_Suc_append)
  also have "\<dots> = set_cell (m[0 := [0..<Suc c]]) 0 (Suc c) (Suc c)"
    by (simp only: Suc)
  also have "\<dots> = m[0 := [0..<Suc c] @ [Suc c]]"
    using assms(2) by (simp add: set_cell_def set_at_def del: upt_Suc)
  also have "\<dots> = m[0 := [0..<Suc (Suc c)]]"
    by simp
  finally show ?case .
qed

lemma lev_row_partial:
  assumes sh: "lev_shape n k i m" and i: "1 \<le> i" "i \<le> k" and c: "c \<le> n" and n: "n = length a"
  shows "let m' = foldl (\<lambda>m j. lev_cell a b m i j) m [1..<Suc c] in
           length m' = Suc k \<and> (\<forall>r. r \<noteq> i \<longrightarrow> m' ! r = m ! r)
           \<and> length (m' ! i) = Suc c \<and> (\<forall>j\<le>c. m' ! i ! j \<le> max i j)"
  using c
proof (induction c)
  note upt_Suc [simp del]
  case 0
  have "m ! i = [i]" using sh i by (simp add: lev_shape_def)
  moreover have "length m = Suc k" using sh by (simp add: lev_shape_def)
  ultimately show ?case by simp
next
  case (Suc c)
  note upt_Suc [simp del]
  let ?m = "foldl (\<lambda>m j. lev_cell a b m i j) m [1..<Suc c]"
  from Suc have ih: "length ?m = Suc k" "\<And>r. r \<noteq> i \<Longrightarrow> ?m ! r = m ! r"
    "length (?m ! i) = Suc c" "\<And>j. j \<le> c \<Longrightarrow> ?m ! i ! j \<le> max i j"
    by (simp_all add: Let_def)
  have step: "foldl (\<lambda>m j. lev_cell a b m i j) m [1..<Suc (Suc c)] = lev_cell a b ?m i (Suc c)"
    by (simp del: upt_Suc add: upt_Suc_append)
  have prev: "?m ! (i - 1) = m ! (i - 1)" using ih(2)[of "i - 1"] i by simp
  have "m ! (i - 1) ! c \<le> max (i - 1) c"
    using sh i Suc.prems by (simp add: lev_shape_def)
  then have diag: "?m ! (i - 1) ! c + 1 \<le> max i (Suc c)" using prev i by simp
  define v where "v = min (min (?m ! (i - 1) ! Suc c + 1) (?m ! i ! c + 1))
             (?m ! (i - 1) ! c + (if a ! c = b ! (i - 1) then 0 else 1))"
  have "v \<le> ?m ! (i - 1) ! c + (if a ! c = b ! (i - 1) then 0 else 1)"
    unfolding v_def by (rule min.cobounded2)
  also have "\<dots> \<le> ?m ! (i - 1) ! c + 1" by simp
  finally have v: "v \<le> max i (Suc c)" using diag by simp
  have cell: "lev_cell a b ?m i (Suc c) = ?m[i := (?m ! i) @ [v]]"
    using ih(3) by (simp add: lev_cell_def set_cell_def set_at_def v_def Let_def)
  have il: "i < length ?m" using ih(1) i by simp
  show ?case
    unfolding step cell Let_def using ih il v
    by (auto simp: nth_append less_Suc_eq_le le_Suc_eq)
qed

lemma lev_row_shape:
  assumes sh: "lev_shape n k i m" and i: "1 \<le> i" "i \<le> k" and n: "n = length a"
  shows "lev_shape n k (Suc i) (lev_row a b m i)"
proof -
  let ?m = "lev_row a b m i"
  from lev_row_partial[OF sh i _ n, of n b]
  have r: "length ?m = Suc k" "\<And>r. r \<noteq> i \<Longrightarrow> ?m ! r = m ! r"
    "length (?m ! i) = Suc n" "\<And>j. j \<le> n \<Longrightarrow> ?m ! i ! j \<le> max i j"
    by (simp_all add: Let_def lev_row_def n)
  have done_rows: "length (?m ! r) = Suc n \<and> (\<forall>j\<le>n. ?m ! r ! j \<le> max r j)" if "r < Suc i" for r
    using that r sh by (cases "r = i") (auto simp: lev_shape_def)
  have todo_rows: "?m ! r = [r]" if "Suc i \<le> r \<and> r \<le> k" for r
    using that r(2)[of r] sh by (simp add: lev_shape_def)
  show ?thesis
    unfolding lev_shape_def using r(1) done_rows todo_rows by blast
qed

lemma lev_rows_shape:
  assumes "lev_shape n k 1 m" "r \<le> k" "n = length a"
  shows "lev_shape n k (Suc r) (foldl (lev_row a b) m [1..<Suc r])"
  using assms(2)
proof (induction r)
  case 0
  then show ?case using assms(1) by simp
next
  case (Suc r)
  have "foldl (lev_row a b) m [1..<Suc (Suc r)] = lev_row a b (foldl (lev_row a b) m [1..<Suc r]) (Suc r)"
    by (simp del: upt_Suc add: upt_Suc_append)
  moreover have "lev_shape n k (Suc r) (foldl (lev_row a b) m [1..<Suc r])"
    using Suc by simp
  ultimately show ?case
    using lev_row_shape[of n k "Suc r" _ a b] Suc.prems assms(3) by simp
qed

lemma levenshteinDistance_le_max: "levenshteinDistance a b \<le> max (length a) (length b)"
proof -
  let ?n = "length a" and ?k = "length b"
  let ?m0 = "map (\<lambda>i. [i]) [0..<Suc ?k]"
  let ?m1 = "?m0[0 := [0..<Suc ?n]]"
  have m1: "foldl (\<lambda>m j. set_cell m 0 j j) ?m0 [0..<Suc ?n] = ?m1"
    by (rule init_row0) (simp_all add: nth_map_upt del: upt_Suc)
  have sh1: "lev_shape ?n ?k 1 ?m1"
    unfolding lev_shape_def by (auto simp del: upt_Suc simp: nth_upt)
  have "lev_shape ?n ?k (Suc ?k) (foldl (lev_row a b) ?m1 [1..<Suc ?k])"
    using lev_rows_shape[OF sh1, of ?k a b] by simp
  then have "foldl (lev_row a b) ?m1 [1..<Suc ?k] ! ?k ! ?n \<le> max ?k ?n"
    by (simp add: lev_shape_def)
  then show ?thesis
    unfolding levenshteinDistance_def Let_def init_rows m1 by (simp add: max.commute)
qed

lemma ratio_le_one:
  fixes d M :: nat
  assumes "d \<le> M"
  shows "0 \<le> real d / real M \<and> real d / real M \<le> 1"
proof (cases "M = 0")
  case True
  then show ?thesis by simp
next
  case False
  then have "0 < real M" by simp
  moreover have "real d \<le> real M" using assms by simp
  ultimately show ?thesis by (simp add: divide_le_eq_1_pos)
qed

text \<open>
  C5.  \<open>calculateSimilarity\<close> agrees with the reference definition on all inputs (1 for
  equal strings, so also for two empty ones; 0 when exactly one is empty; otherwise one
  minus distance over the longer length), and its value always lies in \<open>[0, 1]\<close>.
\<close>

theorem calculateSimilarity_spec:
  "calculateSimilarity a b = similarity_spec a b
   \<and> 0 \<le> calculateSimilarity a b \<and> calculateSimilarity a b \<le> 1"
proof -
  have eq: "calculateSimilarity a b = similarity_spec a b"
    by (auto simp: calculateSimilarity_def similarity_spec_def Let_def)
  from ratio_le_one[OF levenshteinDistance_le_max[of a b]]
  have "0 \<le> calculateSimilarity a b \<and> calculateSimilarity a b \<le> 1"
    unfolding calculateSimilarity_def Let_def by (simp del: of_nat_max)
  with eq show ?thesis by simp
qed

section \<open>AICache: eviction, round trip, defaults\<close>

lemma update_new_key:
  "map_of m k = None \<Longrightarrow> AList.update k v m = m @ [(k, v)]"
  by (induction m) (auto split: if_splits)

lemma length_delete_present:
  "distinct (map fst m) \<Longrightarrow> map_of m k = Some e \<Longrightarrow> Suc (length (AList.delete k m)) = length m"
proof (induction m)
  case Nil
  then show ?case by simp
next
  case (Cons p m)
  show ?case
  proof (cases "fst p = k")
    case True
    then have "k \<notin> fst ` set m" using Cons.prems(1) by auto
    then show ?thesis using True by simp
  next
    case False
    then show ?thesis using Cons by simp
  qed
qed

lemma length_update_le: "length (AList.update k v m) \<le> Suc (length m)"
  by (induction m) auto

lemma length_update_present:
  "map_of m k = Some e \<Longrightarrow> length (AList.update k v m) = length m"
  by (induction m) (auto split: if_splits)

lemma oldest_scan_cases:
  assumes "distinct (map fst m)"
  shows "(oldest_scan m (ko, t0) = (ko, t0)
            \<and> (\<forall>e'\<in>snd ` set m. \<not> (case t0 of None \<Rightarrow> True | Some t \<Rightarrow> timestamp e' < t)))
       \<or> (\<exists>k e. oldest_scan m (ko, t0) = (Some k, Some (timestamp e)) \<and> map_of m k = Some e
            \<and> (case t0 of None \<Rightarrow> True | Some t \<Rightarrow> timestamp e < t)
            \<and> (\<forall>e'\<in>snd ` set m. timestamp e \<le> timestamp e')
            \<and> (\<forall>e'\<in>snd ` set (entries_before k m). timestamp e < timestamp e'))"
  using assms
proof (induction m arbitrary: ko t0)
  case Nil
  then show ?case by simp
next
  case (Cons p m)
  obtain k1 e1 where p: "p = (k1, e1)" by (cases p)
  from Cons.prems have dm: "distinct (map fst m)" and k1: "k1 \<notin> fst ` set m"
    by (auto simp: p)
  have k1none: "map_of m k1 = None" using k1 by (simp add: map_of_eq_None_iff)
  show ?case
  proof (cases "case t0 of None \<Rightarrow> True | Some t \<Rightarrow> timestamp e1 < t")
    case True
    then have step: "oldest_scan (p # m) (ko, t0) = oldest_scan m (Some k1, Some (timestamp e1))"
      by (simp add: p)
    from Cons.IH[OF dm, of "Some k1" "Some (timestamp e1)"]
    show ?thesis
    proof (elim disjE conjE exE)
      assume a: "oldest_scan m (Some k1, Some (timestamp e1)) = (Some k1, Some (timestamp e1))"
        and b: "\<forall>e'\<in>snd ` set m. \<not> (case Some (timestamp e1) of None \<Rightarrow> True | Some t \<Rightarrow> timestamp e' < t)"
      have "\<forall>e'\<in>snd ` set (p # m). timestamp e1 \<le> timestamp e'"
        using b by (auto simp: p not_less)
      then show ?thesis
        using True a unfolding step
        by (intro disjI2 exI[of _ k1] exI[of _ e1]) (simp add: p entries_before_def)
    next
      fix k e
      assume a: "oldest_scan m (Some k1, Some (timestamp e1)) = (Some k, Some (timestamp e))"
        and b: "map_of m k = Some e"
        and c: "case Some (timestamp e1) of None \<Rightarrow> True | Some t \<Rightarrow> timestamp e < t"
        and d: "\<forall>e'\<in>snd ` set m. timestamp e \<le> timestamp e'"
        and f: "\<forall>e'\<in>snd ` set (entries_before k m). timestamp e < timestamp e'"
      have ne: "k \<noteq> k1" using b k1none by auto
      have lt: "timestamp e < timestamp e1" using c by simp
      have below: "case t0 of None \<Rightarrow> True | Some t \<Rightarrow> timestamp e < t"
        using True lt by (cases t0) auto
      have "\<forall>e'\<in>snd ` set (p # m). timestamp e \<le> timestamp e'"
        using d lt by (auto simp: p)
      moreover have "\<forall>e'\<in>snd ` set (entries_before k (p # m)). timestamp e < timestamp e'"
        using f lt ne by (auto simp: p entries_before_def)
      ultimately show ?thesis
        using a b ne below unfolding step
        by (intro disjI2 exI[of _ k] exI[of _ e]) (simp add: p)
    qed
  next
    case False
    then have step: "oldest_scan (p # m) (ko, t0) = oldest_scan m (ko, t0)"
      by (simp add: p)
    from Cons.IH[OF dm, of ko t0]
    show ?thesis
    proof (elim disjE conjE exE)
      assume a: "oldest_scan m (ko, t0) = (ko, t0)"
        and b: "\<forall>e'\<in>snd ` set m. \<not> (case t0 of None \<Rightarrow> True | Some t \<Rightarrow> timestamp e' < t)"
      show ?thesis using a b False unfolding step by (intro disjI1) (simp add: p)
    next
      fix k e
      assume a: "oldest_scan m (ko, t0) = (Some k, Some (timestamp e))"
        and b: "map_of m k = Some e"
        and c: "case t0 of None \<Rightarrow> True | Some t \<Rightarrow> timestamp e < t"
        and d: "\<forall>e'\<in>snd ` set m. timestamp e \<le> timestamp e'"
        and f: "\<forall>e'\<in>snd ` set (entries_before k m). timestamp e < timestamp e'"
      have ne: "k \<noteq> k1" using b k1none by auto
      have lt: "timestamp e < timestamp e1" using c False by (cases t0) auto
      have "\<forall>e'\<in>snd ` set (p # m). timestamp e \<le> timestamp e'"
        using d lt by (auto simp: p)
      moreover have "\<forall>e'\<in>snd ` set (entries_before k (p # m)). timestamp e < timestamp e'"
        using f lt ne by (auto simp: p entries_before_def)
      ultimately show ?thesis
        using a b ne c unfolding step
        by (intro disjI2 exI[of _ k] exI[of _ e]) (simp add: p)
    qed
  qed
qed

lemma oldest_key_minimal:
  assumes "distinct (map fst m)" "m \<noteq> []"
  shows "\<exists>k e. oldest_key m = Some k \<and> map_of m k = Some e
            \<and> (\<forall>e'\<in>snd ` set m. timestamp e \<le> timestamp e')
            \<and> (\<forall>e'\<in>snd ` set (entries_before k m). timestamp e < timestamp e')"
proof -
  obtain p where p: "p \<in> set m" using assms(2) by (cases m) auto
  have no: "\<not> (\<forall>e'\<in>snd ` set m. \<not> (case None :: real option of None \<Rightarrow> True
                                                   | Some t \<Rightarrow> timestamp e' < t))"
    using p by force
  from oldest_scan_cases[OF assms(1), of None None] no
  obtain k e where "oldest_scan m (None, None) = (Some k, Some (timestamp e))"
    "map_of m k = Some e" "\<forall>e'\<in>snd ` set m. timestamp e \<le> timestamp e'"
    "\<forall>e'\<in>snd ` set (entries_before k m). timestamp e < timestamp e'"
    by blast
  then show ?thesis
    unfolding oldest_key_def by (intro exI[of _ k] exI[of _ e]) simp
qed


lemma AICache_new_maxSize_nonzero: "maxSize (AICache_new options) \<noteq> 0"
  by (simp add: AICache_new_def num_or_def split: option.splits)

lemma set_when_full:
  assumes wf: "distinct (map fst (cache c))"
    and full: "real (length (cache c)) = maxSize c" and nz: "maxSize c \<noteq> 0"
    and new: "map_of (cache c) (normalizePrompt p) = None"
    and ok: "oldest_key (cache c) \<noteq> Some []"
  shows "\<exists>k e. oldest_key (cache c) = Some k \<and> map_of (cache c) k = Some e
           \<and> (\<forall>e'\<in>snd ` set (cache c). timestamp e \<le> timestamp e')
           \<and> (\<forall>e'\<in>snd ` set (entries_before k (cache c)). timestamp e < timestamp e')
           \<and> cache (AICache_set now p r c)
               = AList.delete k (cache c)
                 @ [(normalizePrompt p,
                     \<lparr>response = r, timestamp = now, prompt = normalizePrompt p\<rparr>)]
           \<and> length (cache (AICache_set now p r c)) = length (cache c)"
proof -
  have ne: "cache c \<noteq> []" using full nz by auto
  from oldest_key_minimal[OF wf ne]
  obtain k e where k: "oldest_key (cache c) = Some k" "map_of (cache c) k = Some e"
    "\<forall>e'\<in>snd ` set (cache c). timestamp e \<le> timestamp e'"
    "\<forall>e'\<in>snd ` set (entries_before k (cache c)). timestamp e < timestamp e'"
    by blast
  have kne: "k \<noteq> []" using ok k(1) by simp
  have absent: "map_of (AList.delete k (cache c)) (normalizePrompt p) = None"
    using new by (simp add: delete_conv')
  have res: "cache (AICache_set now p r c)
               = AList.delete k (cache c)
                 @ [(normalizePrompt p,
                     \<lparr>response = r, timestamp = now, prompt = normalizePrompt p\<rparr>)]"
    using full new k(1) kne by (simp add: AICache_set_def Let_def update_new_key[OF absent])
  have "length (cache (AICache_set now p r c)) = length (cache c)"
    unfolding res using length_delete_present[OF wf k(2)] by simp
  with k res show ?thesis by blast
qed

lemma set_keeps_bound:
  assumes wf: "distinct (map fst (cache c))"
    and le: "real (length (cache c)) \<le> maxSize c"
    and int: "maxSize c = real n" "1 \<le> n"
    and ok: "oldest_key (cache c) \<noteq> Some []"
  shows "real (length (cache (AICache_set now p r c))) \<le> maxSize c"
proof (cases "map_of (cache c) (normalizePrompt p)")
  case (Some e)
  then have "length (cache (AICache_set now p r c)) = length (cache c)"
    by (simp add: AICache_set_def Let_def length_update_present)
  then show ?thesis using le by simp
next
  case None
  show ?thesis
  proof (cases "real (length (cache c)) \<ge> maxSize c")
    case True
    then have full: "real (length (cache c)) = maxSize c" using le by simp
    have nz: "maxSize c \<noteq> 0" using int by simp
    from set_when_full[OF wf full nz None ok, of now r]
    have "length (cache (AICache_set now p r c)) = length (cache c)" by blast
    then show ?thesis using le by simp
  next
    case False
    then have "length (cache c) < n" using int by simp
    moreover have "cache (AICache_set now p r c)
        = cache c @ [(normalizePrompt p,
               \<lparr>response = r, timestamp = now, prompt = normalizePrompt p\<rparr>)]"
      using False None by (simp add: AICache_set_def Let_def update_new_key)
    ultimately show ?thesis using int by simp
  qed
qed

lemma config_after_set [simp]:
  "maxSize (AICache_set now p r c) = maxSize c"
  "ttlMs (AICache_set now p r c) = ttlMs c"
  "similarityThreshold (AICache_set now p r c) = similarityThreshold c"
  "enableFuzzyMatching (AICache_set now p r c) = enableFuzzyMatching c"
  by (simp_all add: AICache_set_def Let_def)

lemma cache_set_eq:
  "cache (AICache_set now p r c)
   = AList.update (normalizePrompt p)
       \<lparr>response = r, timestamp = now, prompt = normalizePrompt p\<rparr>
       (if maxSize c \<le> real (length (cache c)) \<and> map_of (cache c) (normalizePrompt p) = None
        then (case oldest_key (cache c) of
                Some oldestKey \<Rightarrow>
                  if oldestKey \<noteq> [] then AList.delete oldestKey (cache c) else cache c
              | None \<Rightarrow> cache c)
        else cache c)"
  by (simp add: AICache_set_def Let_def)

lemma three_sets:
  assumes two: "opt_maxSize opts = Some 2"
    and keys: "normalizePrompt A \<noteq> normalizePrompt B" "normalizePrompt A \<noteq> normalizePrompt C"
      "normalizePrompt B \<noteq> normalizePrompt C"
    and kA: "normalizePrompt A \<noteq> []" and order: "tA \<le> tB"
  shows "cache (AICache_set tC C rC (AICache_set tB B rB (AICache_set tA A rA (AICache_new opts))))
         = [(normalizePrompt B, \<lparr>response = rB, timestamp = tB, prompt = normalizePrompt B\<rparr>),
            (normalizePrompt C, \<lparr>response = rC, timestamp = tC, prompt = normalizePrompt C\<rparr>)]"
proof -
  have m0: "maxSize (AICache_new opts :: 'a AICache) = 2" "cache (AICache_new opts :: 'a AICache) = []"
    using two by (simp_all add: AICache_new_def num_or_def)
  show ?thesis
    using order by (simp add: cache_set_eq m0 keys keys[symmetric] kA oldest_key_def not_less)
qed

lemma get_exact_hit:
  assumes "map_of (cache c) (normalizePrompt q) = Some e" "now - timestamp e < ttlMs c"
  shows "AICache_get now clk q c = (Some (response e), c)"
  using assms by (simp add: AICache_get_def Let_def)

lemma fuzzy_scan_none:
  assumes "\<forall>(k, e)\<in>set es. calculateSimilarity np k < thr"
  shows "fst (fuzzy_scan clk ttl thr np es m) = None"
  using assms by (induction es arbitrary: m) auto

lemma get_miss:
  assumes "map_of (cache c) (normalizePrompt q) = None"
    and "\<not> enableFuzzyMatching c \<or> similarityThreshold c \<ge> 1
         \<or> (\<forall>(k, e)\<in>set (cache c). calculateSimilarity (normalizePrompt q) k < similarityThreshold c)"
  shows "fst (AICache_get now clk q c) = None"
proof (cases "enableFuzzyMatching c \<and> similarityThreshold c < 1")
  case True
  with assms(2) have "\<forall>(k, e)\<in>set (cache c).
      calculateSimilarity (normalizePrompt q) k < similarityThreshold c" by auto
  from fuzzy_scan_none[OF this]
  show ?thesis using assms(1) True
    by (simp add: AICache_get_def similar_match_def Let_def case_prod_beta)
next
  case False
  then show ?thesis using assms(1)
    by (auto simp: AICache_get_def similar_match_def Let_def)
qed


text \<open>
  C6 (as amended).  For a cache whose size is at \<open>maxSize\<close>, \<open>set\<close> with a prompt whose
  normalized key is new, when the oldest entry's key is not the empty string, removes exactly
  the oldest entry (smallest timestamp, the first stored among equals) and appends the new
  one, so the size stays at \<open>maxSize\<close>; more generally \<open>set\<close> keeps the size within a
  whole-number \<open>maxSize\<close>.  With \<open>maxSize = 2\<close>, storing three prompts with distinct
  normalized keys A, B, C (A's key not empty, B stored no earlier than A) leaves exactly B
  and C: \<open>get\<close> of B and of C within the TTL return their responses, and \<open>get\<close> of A is a
  miss whenever fuzzy matching is off or A's key is below the threshold against both.
\<close>

theorem AICache_set_evicts_oldest:
  "(distinct (map fst (cache c)) \<and> real (length (cache c)) = maxSize c \<and> maxSize c \<noteq> 0
      \<and> map_of (cache c) (normalizePrompt p) = None \<and> oldest_key (cache c) \<noteq> Some [] \<longrightarrow>
      (\<exists>k e. oldest_key (cache c) = Some k \<and> map_of (cache c) k = Some e
           \<and> (\<forall>e'\<in>snd ` set (cache c). timestamp e \<le> timestamp e')
           \<and> (\<forall>e'\<in>snd ` set (entries_before k (cache c)). timestamp e < timestamp e')
           \<and> cache (AICache_set now p r c)
               = AList.delete k (cache c)
                 @ [(normalizePrompt p,
                     \<lparr>response = r, timestamp = now, prompt = normalizePrompt p\<rparr>)]
           \<and> cache_size (AICache_set now p r c) = cache_size c))
   \<and> (distinct (map fst (cache c)) \<and> real (cache_size c) \<le> maxSize c
        \<and> maxSize c = real n \<and> 1 \<le> n \<and> oldest_key (cache c) \<noteq> Some [] \<longrightarrow>
        real (cache_size (AICache_set now p r c)) \<le> maxSize c)
   \<and> (opt_maxSize opts = Some 2
        \<and> distinct [normalizePrompt A, normalizePrompt B, normalizePrompt C]
        \<and> normalizePrompt A \<noteq> [] \<and> tA \<le> tB
        \<and> c3 = AICache_set tC C rC (AICache_set tB B rB (AICache_set tA A rA (AICache_new opts)))
        \<longrightarrow>
          map fst (cache c3) = [normalizePrompt B, normalizePrompt C]
        \<and> ((\<not> enableFuzzyMatching c3 \<or> similarityThreshold c3 \<ge> 1
             \<or> (calculateSimilarity (normalizePrompt A) (normalizePrompt B) < similarityThreshold c3
                \<and> calculateSimilarity (normalizePrompt A) (normalizePrompt C) < similarityThreshold c3))
            \<longrightarrow> fst (AICache_get t clk A c3) = None)
        \<and> (t - tB < ttlMs c3 \<longrightarrow> fst (AICache_get t clk B c3) = Some rB)
        \<and> (t - tC < ttlMs c3 \<longrightarrow> fst (AICache_get t clk C c3) = Some rC))"
proof (intro conjI impI)
  assume "distinct (map fst (cache c)) \<and> real (length (cache c)) = maxSize c \<and> maxSize c \<noteq> 0
      \<and> map_of (cache c) (normalizePrompt p) = None \<and> oldest_key (cache c) \<noteq> Some []"
  then show "\<exists>k e. oldest_key (cache c) = Some k \<and> map_of (cache c) k = Some e
           \<and> (\<forall>e'\<in>snd ` set (cache c). timestamp e \<le> timestamp e')
           \<and> (\<forall>e'\<in>snd ` set (entries_before k (cache c)). timestamp e < timestamp e')
           \<and> cache (AICache_set now p r c)
               = AList.delete k (cache c)
                 @ [(normalizePrompt p,
                     \<lparr>response = r, timestamp = now, prompt = normalizePrompt p\<rparr>)]
           \<and> cache_size (AICache_set now p r c) = cache_size c"
    unfolding cache_size_def using set_when_full[of c p now r] by blast
next
  assume "distinct (map fst (cache c)) \<and> real (cache_size c) \<le> maxSize c
        \<and> maxSize c = real n \<and> 1 \<le> n \<and> oldest_key (cache c) \<noteq> Some []"
  then show "real (cache_size (AICache_set now p r c)) \<le> maxSize c"
    unfolding cache_size_def using set_keeps_bound[of c n now p r] by blast
next
  assume h: "opt_maxSize opts = Some 2
        \<and> distinct [normalizePrompt A, normalizePrompt B, normalizePrompt C]
        \<and> normalizePrompt A \<noteq> [] \<and> tA \<le> tB
        \<and> c3 = AICache_set tC C rC (AICache_set tB B rB (AICache_set tA A rA (AICache_new opts)))"
  then have c3: "cache c3
         = [(normalizePrompt B, \<lparr>response = rB, timestamp = tB, prompt = normalizePrompt B\<rparr>),
            (normalizePrompt C, \<lparr>response = rC, timestamp = tC, prompt = normalizePrompt C\<rparr>)]"
    using three_sets[of opts A B C tA tB tC rC rB rA] by simp
  from h have ne: "normalizePrompt A \<noteq> normalizePrompt B" "normalizePrompt A \<noteq> normalizePrompt C"
    "normalizePrompt B \<noteq> normalizePrompt C" by simp_all
  show "map fst (cache c3) = [normalizePrompt B, normalizePrompt C]"
    by (simp add: c3)
  show "fst (AICache_get t clk A c3) = None"
    if "\<not> enableFuzzyMatching c3 \<or> similarityThreshold c3 \<ge> 1
             \<or> (calculateSimilarity (normalizePrompt A) (normalizePrompt B) < similarityThreshold c3
                \<and> calculateSimilarity (normalizePrompt A) (normalizePrompt C) < similarityThreshold c3)"
    using that ne by (intro get_miss) (auto simp: c3)
  show "fst (AICache_get t clk B c3) = Some rB" if "t - tB < ttlMs c3"
    using that get_exact_hit[of c3 B _ t clk] by (simp add: c3)
  show "fst (AICache_get t clk C c3) = Some rC" if "t - tC < ttlMs c3"
    using that ne get_exact_hit[of c3 C _ t clk] by (simp add: c3)
qed


text \<open>The amended claim at the keys "A", "B", "C" stored at times 1, 2, 3.\<close>

theorem AICache_set_evicts_oldest_witness:
  "distinct (map fst (cache (AICache_set 2 ''B'' (20::nat) (AICache_set 1 ''A'' 10 (AICache_new two_entry_options)))))
   \<and> real (length (cache (AICache_set 2 ''B'' (20::nat) (AICache_set 1 ''A'' 10 (AICache_new two_entry_options)))))
       = maxSize (AICache_set 2 ''B'' (20::nat) (AICache_set 1 ''A'' 10 (AICache_new two_entry_options)))
   \<and> maxSize (AICache_set 2 ''B'' (20::nat) (AICache_set 1 ''A'' 10 (AICache_new two_entry_options))) = real 2
   \<and> map_of (cache (AICache_set 2 ''B'' (20::nat) (AICache_set 1 ''A'' 10 (AICache_new two_entry_options))))
        (normalizePrompt ''C'') = None
   \<and> oldest_key (cache (AICache_set 2 ''B'' (20::nat) (AICache_set 1 ''A'' 10 (AICache_new two_entry_options))))
       = Some ''a''
   \<and> cache_size (AICache_set 3 ''C'' 30
        (AICache_set 2 ''B'' (20::nat) (AICache_set 1 ''A'' 10 (AICache_new two_entry_options)))) = 2
   \<and> real (cache_size (AICache_set 3 ''C'' 30
        (AICache_set 2 ''B'' (20::nat) (AICache_set 1 ''A'' 10 (AICache_new two_entry_options)))))
       \<le> maxSize (AICache_set 2 ''B'' (20::nat) (AICache_set 1 ''A'' 10 (AICache_new two_entry_options)))
   \<and> opt_maxSize two_entry_options = Some 2
   \<and> distinct [normalizePrompt ''A'', normalizePrompt ''B'', normalizePrompt ''C'']
   \<and> normalizePrompt ''A'' \<noteq> []
   \<and> map fst (cache (AICache_set 3 ''C'' 30
        (AICache_set 2 ''B'' (20::nat) (AICache_set 1 ''A'' 10 (AICache_new two_entry_options)))))
       = [normalizePrompt ''B'', normalizePrompt ''C'']
   \<and> fst (AICache_get 4 (\<lambda>_. 4) ''A'' (AICache_set 3 ''C'' 30
        (AICache_set 2 ''B'' (20::nat) (AICache_set 1 ''A'' 10 (AICache_new two_entry_options))))) = None
   \<and> fst (AICache_get 4 (\<lambda>_. 4) ''B'' (AICache_set 3 ''C'' 30
        (AICache_set 2 ''B'' (20::nat) (AICache_set 1 ''A'' 10 (AICache_new two_entry_options))))) = Some 20
   \<and> fst (AICache_get 4 (\<lambda>_. 4) ''C'' (AICache_set 3 ''C'' 30
        (AICache_set 2 ''B'' (20::nat) (AICache_set 1 ''A'' 10 (AICache_new two_entry_options))))) = Some 30"
proof -
  let ?c2 = "AICache_set 2 ''B'' (20::nat) (AICache_set 1 ''A'' 10 (AICache_new two_entry_options))"
  let ?c3 = "AICache_set 3 ''C'' 30 ?c2"
  have n: "normalizePrompt ''A'' = ''a''" "normalizePrompt ''B'' = ''b''"
    "normalizePrompt ''C'' = ''c''"
    by code_simp+
  have h1: "distinct (map fst (cache ?c2))" by code_simp
  have h2: "real (length (cache ?c2)) = maxSize ?c2" by code_simp
  have h3: "maxSize ?c2 = real 2" by code_simp
  have h4: "map_of (cache ?c2) (normalizePrompt ''C'') = None" by code_simp
  have h5: "oldest_key (cache ?c2) = Some ''a''" by code_simp
  have g1: "opt_maxSize two_entry_options = Some 2"
    by (simp add: two_entry_options_def no_options_def)
  have g2: "distinct [normalizePrompt ''A'', normalizePrompt ''B'', normalizePrompt ''C'']"
    by (simp add: n)
  have g3: "normalizePrompt ''A'' \<noteq> []" by (simp add: n)
  have g4: "calculateSimilarity (normalizePrompt ''A'') (normalizePrompt ''B'') < similarityThreshold ?c3"
    "calculateSimilarity (normalizePrompt ''A'') (normalizePrompt ''C'') < similarityThreshold ?c3"
    by code_simp+
  have g5: "4 - 2 < ttlMs ?c3" "4 - 3 < ttlMs ?c3" by code_simp+
  have h2': "real (cache_size ?c2) \<le> maxSize ?c2" using h2 by (simp add: cache_size_def)
  have sz: "cache_size ?c2 = 2" using h2 h3 by (simp add: cache_size_def)
  note inst = AICache_set_evicts_oldest[where c = ?c2 and p = "''C''" and now = 3 and r = 30
      and n = 2 and opts = two_entry_options and A = "''A''" and B = "''B''"
      and C = "''C''" and tA = 1 and tB = 2 and tC = 3 and rA = 10 and rB = 20 and rC = 30
      and ?c3.0 = ?c3 and t = 4 and clk = "\<lambda>_. 4"]
  have h5': "oldest_key (cache ?c2) \<noteq> Some []" by (simp add: h5)
  have h3': "maxSize ?c2 \<noteq> 0" using h3 by simp
  have "\<exists>k e. oldest_key (cache ?c2) = Some k \<and> map_of (cache ?c2) k = Some e
           \<and> (\<forall>e'\<in>snd ` set (cache ?c2). timestamp e \<le> timestamp e')
           \<and> (\<forall>e'\<in>snd ` set (entries_before k (cache ?c2)). timestamp e < timestamp e')
           \<and> cache ?c3 = AList.delete k (cache ?c2)
                 @ [(normalizePrompt ''C'',
                     \<lparr>response = 30, timestamp = 3, prompt = normalizePrompt ''C''\<rparr>)]
           \<and> cache_size ?c3 = cache_size ?c2"
    by (rule inst[THEN conjunct1, THEN mp]) (intro conjI h1 h2 h3' h4 h5')
  then have a: "cache_size ?c3 = 2" unfolding sz by blast
  have one: "1 \<le> (2::nat)" by simp
  have a': "real (cache_size ?c3) \<le> maxSize ?c2"
    by (rule inst[THEN conjunct2, THEN conjunct1, THEN mp]) (intro conjI h1 h2' h3 one h5')
  have p3: "map fst (cache ?c3) = [normalizePrompt ''B'', normalizePrompt ''C'']
        \<and> ((\<not> enableFuzzyMatching ?c3 \<or> similarityThreshold ?c3 \<ge> 1
             \<or> (calculateSimilarity (normalizePrompt ''A'') (normalizePrompt ''B'') < similarityThreshold ?c3
                \<and> calculateSimilarity (normalizePrompt ''A'') (normalizePrompt ''C'') < similarityThreshold ?c3))
            \<longrightarrow> fst (AICache_get 4 (\<lambda>_. 4) ''A'' ?c3) = None)
        \<and> (4 - 2 < ttlMs ?c3 \<longrightarrow> fst (AICache_get 4 (\<lambda>_. 4) ''B'' ?c3) = Some 20)
        \<and> (4 - 3 < ttlMs ?c3 \<longrightarrow> fst (AICache_get 4 (\<lambda>_. 4) ''C'' ?c3) = Some 30)"
    by (rule inst[THEN conjunct2, THEN conjunct2, THEN mp]) (intro conjI g1 g2 g3 refl, simp)
  have b: "map fst (cache ?c3) = [normalizePrompt ''B'', normalizePrompt ''C'']"
    by (rule p3[THEN conjunct1])
  have c: "fst (AICache_get 4 (\<lambda>_. 4) ''A'' ?c3) = None"
    by (rule p3[THEN conjunct2, THEN conjunct1, THEN mp]) (intro disjI2 conjI g4)
  have d: "fst (AICache_get 4 (\<lambda>_. 4) ''B'' ?c3) = Some 20"
    by (rule p3[THEN conjunct2, THEN conjunct2, THEN conjunct1, THEN mp]) (rule g5(1))
  have e: "fst (AICache_get 4 (\<lambda>_. 4) ''C'' ?c3) = Some 30"
    by (rule p3[THEN conjunct2, THEN conjunct2, THEN conjunct2, THEN mp]) (rule g5(2))
  show ?thesis by (intro conjI h1 h2 h3 h4 h5 a a' g1 g2 g3 b c d e)
qed

text \<open>
  C6, the claim as written fails twice.  With the default threshold 0.95, two distinct keys
  of twenty characters that differ in one are similar enough: after A, B, C the evicted A is
  answered with B's response instead of a miss.  And when the oldest key is the empty string
  the truthiness test \<open>if (oldestKey)\<close> skips the eviction: the size becomes 3 with
  \<open>maxSize = 2\<close>.
\<close>

theorem AICache_eviction_counterexample:
  "map_of (cache (AICache_set 3 ''zzz'' 30 (AICache_set 2 ''what is the capital2'' (20::nat)
       (AICache_set 1 ''what is the capital1'' 10 (AICache_new two_entry_options)))))
     (normalizePrompt ''what is the capital1'') = None
   \<and> fst (AICache_get 4 (\<lambda>_. 4) ''what is the capital1''
       (AICache_set 3 ''zzz'' 30 (AICache_set 2 ''what is the capital2'' (20::nat)
         (AICache_set 1 ''what is the capital1'' 10 (AICache_new two_entry_options))))) = Some 20
   \<and> maxSize (AICache_set 3 ''b'' 30 (AICache_set 2 ''a'' (20::nat)
         (AICache_set 1 '''' 10 (AICache_new two_entry_options)))) = 2
   \<and> cache_size (AICache_set 3 ''b'' 30 (AICache_set 2 ''a'' (20::nat)
         (AICache_set 1 '''' 10 (AICache_new two_entry_options)))) = 3"
  by code_simp

text \<open>
  C7.  After \<open>set(p, R)\<close>, a \<open>get(q)\<close> within the TTL returns \<open>R\<close> for every \<open>q\<close> with the
  same normalized form as \<open>p\<close>, whatever the cache held before.
\<close>

theorem store_then_lookup_normalized:
  assumes "normalizePrompt q = normalizePrompt p" "t - now < ttlMs c"
  shows "fst (AICache_get t clk q (AICache_set now p R c)) = Some R"
proof -
  let ?e = "\<lparr>response = R, timestamp = now, prompt = normalizePrompt p\<rparr>"
  have "map_of (cache (AICache_set now p R c)) (normalizePrompt q) = Some ?e"
    by (simp add: cache_set_eq update_conv' assms(1))
  from get_exact_hit[OF this, of t clk] assms(2) show ?thesis by simp
qed

text \<open>The specification's example: "Hello World" stored, "  hello   world  " looked up.\<close>

theorem store_then_lookup_normalized_witness:
  "normalizePrompt ''  hello   world  '' = normalizePrompt ''Hello World''
   \<and> 1000 - 0 < ttlMs (AICache_new no_options :: nat AICache)
   \<and> fst (AICache_get 1000 (\<lambda>_. 1000) ''  hello   world  ''
            (AICache_set 0 ''Hello World'' (42::nat) (AICache_new no_options))) = Some 42"
proof -
  have n: "normalizePrompt ''  hello   world  '' = normalizePrompt ''Hello World''"
    by code_simp
  have t: "1000 - 0 < ttlMs (AICache_new no_options :: nat AICache)"
    by (simp add: AICache_new_def no_options_def num_or_def)
  from store_then_lookup_normalized[OF n t, of "\<lambda>_. 1000" 42] n t show ?thesis by simp
qed

text \<open>
  C10.  A numeric option passed as 0 is replaced by the default, exactly as an absent one:
  threshold 0.95, size 1000, TTL 3600000; no options give a threshold of 0.
\<close>

theorem AICache_zero_options_replaced:
  "similarityThreshold (AICache_new (options\<lparr>opt_similarityThreshold := Some 0\<rparr>)) = 95 / 100
   \<and> maxSize (AICache_new (options\<lparr>opt_maxSize := Some 0\<rparr>)) = 1000
   \<and> ttlMs (AICache_new (options\<lparr>opt_ttlMs := Some 0\<rparr>)) = 3600000
   \<and> AICache_new (options\<lparr>opt_similarityThreshold := Some 0\<rparr>)
       = AICache_new (options\<lparr>opt_similarityThreshold := None\<rparr>)
   \<and> AICache_new (options\<lparr>opt_maxSize := Some 0\<rparr>)
       = AICache_new (options\<lparr>opt_maxSize := None\<rparr>)
   \<and> AICache_new (options\<lparr>opt_ttlMs := Some 0\<rparr>)
       = AICache_new (options\<lparr>opt_ttlMs := None\<rparr>)
   \<and> similarityThreshold (AICache_new options) \<noteq> 0"
  by (simp add: AICache_new_def num_or_def split: option.splits)

section \<open>RequestBatcher: coordination, single settlement, FIFO batches\<close>

lemma processBatch_idle:
  assumes "\<not> isProcessing s" "queue s \<noteq> []"
  shows "processBatch s =
     s\<lparr>isProcessing := True, batchTimer := None,
       queue := drop (nat \<lfloor>maxBatchSize s\<rfloor>) (queue s),
       inflight := Some (take (nat \<lfloor>maxBatchSize s\<rfloor>) (queue s)),
       batches := batches s @ [take (nat \<lfloor>maxBatchSize s\<rfloor>) (queue s)]\<rparr>"
  using assms by (simp add: processBatch_def Let_def)

lemma processBatch_skip:
  assumes "isProcessing s \<or> queue s = []"
  shows "processBatch s = s"
  using assms by (simp add: processBatch_def)

lemma map_fst_indexed:
  "map fst (map (\<lambda>(item, index). (f item, g index)) (zip xs [0..<length xs])) = map f xs"
  by (rule nth_equalityI) simp_all

lemma map_fst_settle_batch: "map fst (settle_batch out batch) = map q_id batch"
proof (cases out)
  case (Fulfilled results)
  then show ?thesis
    unfolding settle_batch_def by (simp only: outcome.case map_fst_indexed)
next
  case (Failed error)
  then show ?thesis by (simp add: settle_batch_def comp_def)
qed

lemma timers_single:
  assumes "map fst ts = [h]"
  shows "filter (\<lambda>t. fst t \<noteq> h) ts = []" "filter (\<lambda>t. Some (fst t) \<noteq> Some h) ts = []"
    "fst ` set ts = {h}"
proof -
  from assms obtain d where "ts = [(h, d)]" by (cases ts) auto
  then show "filter (\<lambda>t. fst t \<noteq> h) ts = []" "filter (\<lambda>t. Some (fst t) \<noteq> Some h) ts = []"
    "fst ` set ts = {h}" by simp_all
qed

lemma new_coordinated: "coordinated (RequestBatcher_new opts)"
  by (simp add: coordinated_def RequestBatcher_new_def)

lemma new_accounted: "accounted (RequestBatcher_new opts)"
  by (simp add: accounted_def RequestBatcher_new_def settled_ids_def pending_def)

lemma timer_fires_when_armed:
  assumes c: "coordinated s" and h: "handle \<in> fst ` set (timers s)"
  shows "step s (TimerFires handle) =
     s\<lparr>timers := [], isProcessing := True, batchTimer := None,
       queue := drop (nat \<lfloor>maxBatchSize s\<rfloor>) (queue s),
       inflight := Some (take (nat \<lfloor>maxBatchSize s\<rfloor>) (queue s)),
       batches := batches s @ [take (nat \<lfloor>maxBatchSize s\<rfloor>) (queue s)]\<rparr>"
    and "batchTimer s = Some handle" and "\<not> isProcessing s" and "queue s \<noteq> []"
      and "inflight s = None"
proof -
  from h have ne: "map fst (timers s) \<noteq> []" by auto
  with c obtain h' where bt: "batchTimer s = Some h'" and ts: "map fst (timers s) = [h']"
    by (cases "batchTimer s") (auto simp: coordinated_def)
  from h ts have hh: "h' = handle" using timers_single(3)[OF ts] by auto
  show b: "batchTimer s = Some handle" using bt hh by simp
  show np: "\<not> isProcessing s" using c bt by (auto simp: coordinated_def split: if_splits)
  show q: "queue s \<noteq> []" using c bt np by (auto simp: coordinated_def split: if_splits)
  show "inflight s = None" using c np by (simp add: coordinated_def)
  have f: "filter (\<lambda>t. fst t \<noteq> handle) (timers s) = []"
    using timers_single(1)[OF ts] hh by simp
  show "step s (TimerFires handle) =
     s\<lparr>timers := [], isProcessing := True, batchTimer := None,
       queue := drop (nat \<lfloor>maxBatchSize s\<rfloor>) (queue s),
       inflight := Some (take (nat \<lfloor>maxBatchSize s\<rfloor>) (queue s)),
       batches := batches s @ [take (nat \<lfloor>maxBatchSize s\<rfloor>) (queue s)]\<rparr>"
    using h np q by (simp add: f processBatch_idle)
qed

lemma step_timer_coordinated:
  assumes "coordinated s"
  shows "coordinated (step s (TimerFires handle))"
proof (cases "handle \<in> fst ` set (timers s)")
  case True
  from timer_fires_when_armed(1)[OF assms True]
  show ?thesis by (simp add: coordinated_def)
next
  case False
  then show ?thesis using assms by simp
qed

lemma step_timer_pending:
  assumes "coordinated s"
  shows "pending (step s (TimerFires handle)) = pending s
       \<and> settled (step s (TimerFires handle)) = settled s
       \<and> idCounter (step s (TimerFires handle)) = idCounter s"
proof (cases "handle \<in> fst ` set (timers s)")
  case True
  from timer_fires_when_armed[OF assms True]
  show ?thesis by (simp add: pending_def)
next
  case False
  then show ?thesis by simp
qed

lemma settles_when_inflight:
  assumes c: "coordinated s" and i: "inflight s = Some batch"
  shows "step s (BatchSettles out) =
     (if queue s \<noteq> []
      then s\<lparr>settled := settled s @ settle_batch out batch, inflight := None,
             isProcessing := False, batchTimer := Some (nextTimer s),
             timers := [(nextTimer s, 0)], nextTimer := Suc (nextTimer s)\<rparr>
      else s\<lparr>settled := settled s @ settle_batch out batch, inflight := None,
             isProcessing := False\<rparr>)"
proof -
  from c i have "isProcessing s" "batchTimer s = None" "timers s = []"
    by (auto simp: coordinated_def split: if_splits)
  then show ?thesis
    using i by (simp add: processBatch_resume_def Let_def arm_timer_def)
qed

lemma step_settles_coordinated:
  assumes "coordinated s"
  shows "coordinated (step s (BatchSettles out))"
proof (cases "inflight s")
  case None
  then show ?thesis using assms by (simp add: processBatch_resume_def)
next
  case (Some batch)
  from assms Some have "isProcessing s" "batchTimer s = None" "timers s = []"
    by (auto simp: coordinated_def split: if_splits)
  then show ?thesis
    unfolding settles_when_inflight[OF assms Some, of out]
    by (simp add: coordinated_def)
qed

lemma step_settles_accounted:
  assumes "coordinated s" "accounted s"
  shows "accounted (step s (BatchSettles out))"
proof (cases "inflight s")
  case None
  then show ?thesis using assms by (simp add: processBatch_resume_def)
next
  case (Some batch)
  have eq: "settled_ids (step s (BatchSettles out)) @ map q_id (pending (step s (BatchSettles out)))
        = settled_ids s @ map q_id (pending s)"
    and idc: "idCounter (step s (BatchSettles out)) = idCounter s"
    using settles_when_inflight[OF assms(1) Some, of out] Some
    by (simp_all add: settled_ids_def pending_def map_fst_settle_batch)
  show ?thesis using assms(2) unfolding accounted_def eq idc .
qed

lemma clearQueue_fields:
  assumes c: "coordinated s"
  shows "clearQueue reason s =
     s\<lparr>settled := settled s @ map (\<lambda>request. (q_id request, Rejected (Error reason))) (queue s),
       queue := [], batchTimer := None, timers := []\<rparr>"
proof (cases "batchTimer s")
  case None
  then have "timers s = []" using c by (simp add: coordinated_def)
  then show ?thesis using None by (simp add: clearQueue_def Let_def)
next
  case (Some h)
  then have "map fst (timers s) = [h]" using c by (simp add: coordinated_def)
  from timers_single(2)[OF this] show ?thesis
    using Some by (simp add: clearQueue_def Let_def clearTimeout_def)
qed

lemma step_clear_coordinated:
  assumes "coordinated s"
  shows "coordinated (step s (ClearQueue reason))"
  using assms unfolding step.simps clearQueue_fields[OF assms]
  by (auto simp: coordinated_def split: if_splits)

lemma step_clear_accounted:
  assumes "coordinated s" "accounted s"
  shows "accounted (step s (ClearQueue reason))"
proof -
  let ?s = "step s (ClearQueue reason)"
  have sid: "settled_ids ?s = settled_ids s @ map q_id (queue s)"
    and pen: "pending ?s = (case inflight s of None \<Rightarrow> [] | Some batch \<Rightarrow> batch)"
    and idc: "idCounter ?s = idCounter s"
    by (simp_all add: clearQueue_fields[OF assms(1)] settled_ids_def pending_def comp_def)
  have p: "pending s = (case inflight s of None \<Rightarrow> [] | Some batch \<Rightarrow> batch) @ queue s"
    by (simp add: pending_def)
  show ?thesis
    using assms(2) unfolding accounted_def sid pen idc p
    by (auto split: option.splits)
qed

lemma addRequest_busy:
  assumes "isProcessing s"
  shows "snd (addRequest p opt now s) =
     s\<lparr>idCounter := Suc (idCounter s),
       queue := queue s @ [\<lparr>q_id = Suc (idCounter s), q_prompt = p, q_options = opt,
                            q_timestamp = now\<rparr>]\<rparr>"
  using assms by (simp add: addRequest_def Let_def)

lemma addRequest_waits:
  assumes c: "coordinated s" and idle: "\<not> isProcessing s"
    and small: "\<not> real (Suc (length (queue s))) \<ge> maxBatchSize s"
  shows "snd (addRequest p opt now s) =
     (if batchTimer s = None
      then s\<lparr>idCounter := Suc (idCounter s),
             queue := queue s @ [\<lparr>q_id = Suc (idCounter s), q_prompt = p, q_options = opt,
                                  q_timestamp = now\<rparr>],
             batchTimer := Some (nextTimer s), timers := [(nextTimer s, maxDelayMs s)],
             nextTimer := Suc (nextTimer s)\<rparr>
      else s\<lparr>idCounter := Suc (idCounter s),
             queue := queue s @ [\<lparr>q_id = Suc (idCounter s), q_prompt = p, q_options = opt,
                                  q_timestamp = now\<rparr>]\<rparr>)"
proof -
  have "timers s = []" if "batchTimer s = None"
    using c that by (simp add: coordinated_def)
  then show ?thesis
    using idle small by (simp add: addRequest_def Let_def arm_timer_def)
qed


lemma addRequest_dispatches:
  assumes c: "coordinated s" and idle: "\<not> isProcessing s"
    and big: "real (Suc (length (queue s))) \<ge> maxBatchSize s"
  shows "snd (addRequest p opt now s) =
     s\<lparr>idCounter := Suc (idCounter s),
       queue := drop (nat \<lfloor>maxBatchSize s\<rfloor>)
                  (queue s @ [\<lparr>q_id = Suc (idCounter s), q_prompt = p, q_options = opt,
                                q_timestamp = now\<rparr>]),
       isProcessing := True, batchTimer := None, timers := [],
       nextTimer := (if batchTimer s = None then Suc (nextTimer s) else nextTimer s),
       inflight := Some (take (nat \<lfloor>maxBatchSize s\<rfloor>)
                  (queue s @ [\<lparr>q_id = Suc (idCounter s), q_prompt = p, q_options = opt,
                                q_timestamp = now\<rparr>])),
       batches := batches s @ [take (nat \<lfloor>maxBatchSize s\<rfloor>)
                  (queue s @ [\<lparr>q_id = Suc (idCounter s), q_prompt = p, q_options = opt,
                                q_timestamp = now\<rparr>])]\<rparr>"
proof (cases "batchTimer s")
  case None
  then have "timers s = []" using c by (simp add: coordinated_def)
  then show ?thesis
    using idle big None
    by (simp add: addRequest_def Let_def arm_timer_def clearTimeout_def processBatch_def
             del: take_append drop_append)
next
  case (Some h)
  then have "map fst (timers s) = [h]" using c by (simp add: coordinated_def)
  from timers_single(2)[OF this] show ?thesis
    using idle big Some
    by (simp add: addRequest_def Let_def clearTimeout_def processBatch_def
             del: take_append drop_append)
qed

lemma step_add_coordinated:
  assumes c: "coordinated s"
  shows "coordinated (step s (AddRequest p opt now))"
proof (cases "isProcessing s")
  case True
  then show ?thesis using c by (simp add: addRequest_busy coordinated_def)
next
  case False
  show ?thesis
  proof (cases "real (Suc (length (queue s))) \<ge> maxBatchSize s")
    case True
    show ?thesis
      unfolding step.simps addRequest_dispatches[OF c False True]
      by (simp add: coordinated_def)
  next
    case small: False
    have nf: "inflight s = None" using c False by (simp add: coordinated_def)
    show ?thesis
    proof (cases "batchTimer s")
      case None
      then show ?thesis
        unfolding step.simps addRequest_waits[OF c False small]
        using False nf by (simp add: coordinated_def)
    next
      case (Some h)
      then have "map fst (timers s) = [h]" using c by (simp add: coordinated_def)
      then show ?thesis
        unfolding step.simps addRequest_waits[OF c False small]
        using False nf Some by (simp add: coordinated_def)
    qed
  qed
qed

lemma step_add_pending:
  assumes c: "coordinated s"
  shows "pending (step s (AddRequest p opt now))
           = pending s @ [\<lparr>q_id = Suc (idCounter s), q_prompt = p, q_options = opt,
                            q_timestamp = now\<rparr>]
       \<and> settled (step s (AddRequest p opt now)) = settled s
       \<and> idCounter (step s (AddRequest p opt now)) = Suc (idCounter s)"
proof (cases "isProcessing s")
  case True
  then show ?thesis by (simp add: addRequest_busy pending_def)
next
  case False
  then have nf: "inflight s = None" using c by (simp add: coordinated_def)
  show ?thesis
  proof (cases "real (Suc (length (queue s))) \<ge> maxBatchSize s")
    case True
    show ?thesis
      unfolding step.simps addRequest_dispatches[OF c False True]
      using nf by (simp add: pending_def del: take_append drop_append)
  next
    case small: False
    show ?thesis
      unfolding step.simps addRequest_waits[OF c False small]
      using nf by (simp add: pending_def)
  qed
qed

lemma step_add_accounted:
  assumes "coordinated s" "accounted s"
  shows "accounted (step s (AddRequest p opt now))"
proof -
  let ?ids = "settled_ids s @ map q_id (pending s)"
  from assms(2) have d: "distinct ?ids" and st: "set ?ids = {1..idCounter s}"
    by (simp_all add: accounted_def)
  have fresh: "Suc (idCounter s) \<notin> set ?ids" unfolding st by simp
  have ext: "{1..Suc (idCounter s)} = insert (Suc (idCounter s)) {1..idCounter s}" by auto
  from step_add_pending[OF assms(1), of p opt now]
  have eq: "settled_ids (step s (AddRequest p opt now))
              @ map q_id (pending (step s (AddRequest p opt now)))
            = ?ids @ [Suc (idCounter s)]"
    and idc: "idCounter (step s (AddRequest p opt now)) = Suc (idCounter s)"
    by (simp_all add: settled_ids_def)
  have "distinct (?ids @ [Suc (idCounter s)])" using d fresh by simp
  moreover have "set (?ids @ [Suc (idCounter s)]) = {1..Suc (idCounter s)}"
    unfolding ext using st by simp
  ultimately show ?thesis unfolding accounted_def eq idc by simp
qed

lemma step_timer_accounted:
  assumes "coordinated s" "accounted s"
  shows "accounted (step s (TimerFires handle))"
  using assms(2) step_timer_pending[OF assms(1), of handle]
  by (simp add: accounted_def settled_ids_def)

lemma step_invariant:
  assumes "coordinated s \<and> accounted s"
  shows "coordinated (step s ev) \<and> accounted (step s ev)"
proof -
  from assms have c: "coordinated s" and a: "accounted s" by simp_all
  show ?thesis
  proof (cases ev)
    case (AddRequest p opt now)
    show ?thesis unfolding AddRequest
      by (intro conjI step_add_coordinated[OF c] step_add_accounted[OF c a])
  next
    case (ClearQueue reason)
    show ?thesis unfolding ClearQueue
      by (intro conjI step_clear_coordinated[OF c] step_clear_accounted[OF c a])
  next
    case (TimerFires handle)
    show ?thesis unfolding TimerFires
      by (intro conjI step_timer_coordinated[OF c] step_timer_accounted[OF c a])
  next
    case (BatchSettles out)
    show ?thesis unfolding BatchSettles
      by (intro conjI step_settles_coordinated[OF c] step_settles_accounted[OF c a])
  qed
qed

lemma run_snoc: "run s (evs @ [ev]) = step (run s evs) ev"
  by (simp add: run_def)

lemma run_append: "run s (evs @ evs') = run (run s evs) evs'"
  by (simp add: run_def)

lemma run_invariant:
  assumes "coordinated s \<and> accounted s"
  shows "coordinated (run s evs) \<and> accounted (run s evs)"
proof (induction evs rule: rev_induct)
  case Nil
  show ?case using assms by (simp add: run_def)
next
  case (snoc ev evs)
  show ?case unfolding run_snoc using snoc by (rule step_invariant)
qed

lemma reachable_invariant:
  "coordinated (run (RequestBatcher_new opts) evs) \<and> accounted (run (RequestBatcher_new opts) evs)"
  by (rule run_invariant) (simp add: new_coordinated new_accounted)

lemma maxBatchSize_step [simp]: "maxBatchSize (step s ev) = maxBatchSize s"
proof (cases ev)
  case (AddRequest p opt now)
  then show ?thesis
    by (simp add: addRequest_def Let_def arm_timer_def clearTimeout_def processBatch_def)
next
  case (ClearQueue reason)
  then show ?thesis by (simp add: clearQueue_def Let_def clearTimeout_def)
next
  case (TimerFires handle)
  then show ?thesis by (simp add: processBatch_def Let_def)
next
  case (BatchSettles out)
  then show ?thesis
    by (simp add: processBatch_resume_def Let_def arm_timer_def split: option.splits)
qed

lemma maxBatchSize_run [simp]: "maxBatchSize (run s evs) = maxBatchSize s"
  by (induction evs rule: rev_induct) (simp_all add: run_def)

lemma settled_step:
  assumes c: "coordinated s"
  shows "\<exists>new. settled (step s ev) = settled s @ new"
proof (cases ev)
  case (AddRequest p opt now)
  then show ?thesis using step_add_pending[OF c, of p opt now] by simp
next
  case (ClearQueue reason)
  then show ?thesis by (simp add: clearQueue_fields[OF c])
next
  case (TimerFires handle)
  then show ?thesis using step_timer_pending[OF c, of handle] by simp
next
  case (BatchSettles out)
  show ?thesis
  proof (cases "inflight s")
    case None
    then show ?thesis by (simp add: BatchSettles processBatch_resume_def)
  next
    case (Some batch)
    show ?thesis unfolding BatchSettles settles_when_inflight[OF c Some, of out] by simp
  qed
qed

lemma settled_run:
  assumes "coordinated s \<and> accounted s"
  shows "\<exists>new. settled (run s evs) = settled s @ new"
proof (induction evs rule: rev_induct)
  case Nil
  show ?case by (simp add: run_def)
next
  case (snoc ev evs)
  then obtain new where n: "settled (run s evs) = settled s @ new" by blast
  have "coordinated (run s evs)" using run_invariant[OF assms, of evs] by simp
  from settled_step[OF this, of ev] obtain new' where
    "settled (step (run s evs) ev) = settled (run s evs) @ new'" by blast
  then show ?case unfolding run_snoc n by simp
qed

lemma settlement_final:
  assumes inv: "coordinated s \<and> accounted s"
    and mem: "(n, v) \<in> set (settled s)"
  shows "filter (\<lambda>x. fst x = n) (settled (run s evs)) = [(n, v)]"
proof -
  let ?t = "run s evs"
  from settled_run[OF inv, of evs] obtain new where new: "settled ?t = settled s @ new" by blast
  have "accounted ?t" using run_invariant[OF inv, of evs] by simp
  then have d: "distinct (map fst (settled ?t))"
    by (simp add: accounted_def settled_ids_def)
  have m: "(n, v) \<in> set (settled ?t)" using mem new by simp
  have "\<And>xs. distinct (map fst xs) \<Longrightarrow> (n, v) \<in> set xs
          \<Longrightarrow> filter (\<lambda>x. fst x = n) xs = [(n, v)]"
  proof -
    fix xs :: "(nat \<times> ('b, 'c) settlement) list"
    show "distinct (map fst xs) \<Longrightarrow> (n, v) \<in> set xs \<Longrightarrow> filter (\<lambda>x. fst x = n) xs = [(n, v)]"
    proof (induction xs)
      case Nil
      then show ?case by simp
    next
      case (Cons x xs)
      show ?case
      proof (cases "x = (n, v)")
        case True
        then have "n \<notin> fst ` set xs" using Cons.prems(1) by auto
        then have "filter (\<lambda>x. fst x = n) xs = []" by (auto simp: filter_empty_conv)
        then show ?thesis using True by simp
      next
        case False
        then have in_xs: "(n, v) \<in> set xs" using Cons.prems(2) by simp
        then have "n \<in> fst ` set xs" by force
        then have "fst x \<noteq> n" using Cons.prems(1) by auto
        then show ?thesis using Cons.IH in_xs Cons.prems(1) by simp
      qed
    qed
  qed
  from this[OF d m] show ?thesis .
qed

lemma resolutions_le_one:
  assumes "accounted s"
  shows "resolutions s n \<le> 1"
proof -
  from assms have d: "distinct (map fst (settled s))"
    by (simp add: accounted_def settled_ids_def)
  have "length (filter (\<lambda>x. fst x = n) xs) \<le> 1" if "distinct (map fst xs)"
    for xs :: "(nat \<times> ('b, 'c) settlement) list"
    using that
  proof (induction xs)
    case Nil
    then show ?case by simp
  next
    case (Cons x xs)
    show ?case
    proof (cases "fst x = n")
      case True
      then have "n \<notin> fst ` set xs" using Cons.prems by auto
      then have "filter (\<lambda>x. fst x = n) xs = []" by (auto simp: filter_empty_conv)
      then show ?thesis using True by simp
    next
      case False
      then show ?thesis using Cons by simp
    qed
  qed
  from this[OF d] show ?thesis by (simp add: resolutions_def)
qed

lemma resolutions_pos_iff: "0 < resolutions s n \<longleftrightarrow> n \<in> set (settled_ids s)"
proof -
  have "0 < resolutions s n \<longleftrightarrow> filter (\<lambda>x. fst x = n) (settled s) \<noteq> []"
    by (simp add: resolutions_def)
  also have "\<dots> \<longleftrightarrow> (\<exists>x\<in>set (settled s). fst x = n)"
    by (simp add: filter_empty_conv)
  also have "\<dots> \<longleftrightarrow> n \<in> fst ` set (settled s)" by force
  finally show ?thesis by (simp add: settled_ids_def)
qed

lemma resolutions_accounted:
  assumes "accounted s" "n \<in> {1..idCounter s}"
  shows "resolutions s n = (if n \<in> q_id ` set (pending s) then 0 else 1)"
proof -
  from assms(1) have d: "distinct (settled_ids s @ map q_id (pending s))"
    and st: "set (settled_ids s @ map q_id (pending s)) = {1..idCounter s}"
    by (simp_all add: accounted_def)
  show ?thesis
  proof (cases "n \<in> q_id ` set (pending s)")
    case True
    then have "n \<notin> set (settled_ids s)" using d by auto
    then have "\<not> 0 < resolutions s n" by (simp add: resolutions_pos_iff)
    then show ?thesis using True by simp
  next
    case False
    then have "n \<in> set (settled_ids s)" using st assms(2) by auto
    then have "0 < resolutions s n" by (simp add: resolutions_pos_iff)
    moreover have "resolutions s n \<le> 1" by (rule resolutions_le_one[OF assms(1)])
    ultimately show ?thesis using False by simp
  qed
qed

lemma fire_fields:
  assumes c: "coordinated s"
  shows "fire s =
     (case batchTimer s of
        None \<Rightarrow> s
      | Some handle \<Rightarrow>
          s\<lparr>timers := [], isProcessing := True, batchTimer := None,
            queue := drop (nat \<lfloor>maxBatchSize s\<rfloor>) (queue s),
            inflight := Some (take (nat \<lfloor>maxBatchSize s\<rfloor>) (queue s)),
            batches := batches s @ [take (nat \<lfloor>maxBatchSize s\<rfloor>) (queue s)]\<rparr>)"
proof (cases "batchTimer s")
  case None
  then show ?thesis by (simp add: fire_def)
next
  case (Some h)
  then have "map fst (timers s) = [h]" using c by (simp add: coordinated_def)
  then have "fst ` set (timers s) = {h}" by (rule timers_single(3))
  then have "h \<in> fst ` set (timers s)" by simp
  from timer_fires_when_armed(1)[OF c this] show ?thesis
    using Some by (simp add: fire_def)
qed

lemma fire_invariant:
  assumes "coordinated s \<and> accounted s"
  shows "coordinated (fire s) \<and> accounted (fire s)"
proof (cases "batchTimer s")
  case None
  then show ?thesis using assms by (simp add: fire_def)
next
  case (Some h)
  then have "fire s = step s (TimerFires h)" by (simp add: fire_def)
  then show ?thesis using step_invariant[OF assms, of "TimerFires h"] by simp
qed

lemma advance_invariant:
  assumes "coordinated s \<and> accounted s"
  shows "coordinated (advance s out) \<and> accounted (advance s out)"
  unfolding advance_def by (rule step_invariant[OF fire_invariant[OF assms]])

lemma advance_fields:
  assumes inv: "coordinated s \<and> accounted s"
  shows "inflight (advance s out) = None"
    and "idCounter (advance s out) = idCounter s"
    and "maxBatchSize (advance s out) = maxBatchSize s"
    and "queue (advance s out)
         = (if inflight s = None then drop (nat \<lfloor>maxBatchSize s\<rfloor>) (queue s) else queue s)"
proof -
  from inv have c: "coordinated s" by simp
  have cf: "coordinated (fire s)" using fire_invariant[OF inv] by simp
  show "inflight (advance s out) = None"
  proof (cases "inflight (fire s)")
    case None
    then show ?thesis by (simp add: advance_def processBatch_resume_def)
  next
    case (Some b)
    show ?thesis unfolding advance_def settles_when_inflight[OF cf Some, of out] by simp
  qed
  have q: "queue (step t (BatchSettles out)) = queue t
         \<and> idCounter (step t (BatchSettles out)) = idCounter t" if "coordinated t"
    for t :: "('a, 'b, 'c) RequestBatcher"
  proof (cases "inflight t")
    case None
    then show ?thesis by (simp add: processBatch_resume_def)
  next
    case (Some b)
    show ?thesis unfolding settles_when_inflight[OF that Some, of out] by simp
  qed
  have fi: "idCounter (fire s) = idCounter s"
    by (simp add: fire_fields[OF c] split: option.splits)
  show "idCounter (advance s out) = idCounter s"
    unfolding advance_def using q[OF cf] fi by simp
  have "maxBatchSize (advance s out) = maxBatchSize (fire s)"
    unfolding advance_def by (rule maxBatchSize_step)
  also have "\<dots> = maxBatchSize s"
    by (simp add: fire_fields[OF c] split: option.splits)
  finally show "maxBatchSize (advance s out) = maxBatchSize s" .
  have fq: "queue (fire s)
         = (if inflight s = None then drop (nat \<lfloor>maxBatchSize s\<rfloor>) (queue s) else queue s)"
  proof (cases "batchTimer s")
    case None
    then have "inflight s = None \<longrightarrow> queue s = []"
      using c by (auto simp: coordinated_def split: if_splits)
    then show ?thesis using None by (auto simp: fire_fields[OF c])
  next
    case (Some h)
    then have "inflight s = None"
      using c by (auto simp: coordinated_def split: if_splits)
    then show ?thesis using Some by (simp add: fire_fields[OF c])
  qed
  show "queue (advance s out)
         = (if inflight s = None then drop (nat \<lfloor>maxBatchSize s\<rfloor>) (queue s) else queue s)"
    unfolding advance_def using q[OF cf] fq by simp
qed

lemma drain_Cons: "drain s (out # outs) = drain (advance s out) outs"
  by (simp add: drain_def)

lemma drain_idle:
  assumes "coordinated s \<and> accounted s" "1 \<le> maxBatchSize s" "inflight s = None"
    "length (queue s) \<le> length outs"
  shows "queue (drain s outs) = [] \<and> inflight (drain s outs) = None
       \<and> coordinated (drain s outs) \<and> accounted (drain s outs)
       \<and> idCounter (drain s outs) = idCounter s"
  using assms
proof (induction outs arbitrary: s)
  case Nil
  then show ?case by (simp add: drain_def)
next
  case (Cons out outs)
  let ?t = "advance s out"
  have inv: "coordinated ?t \<and> accounted ?t" by (rule advance_invariant[OF Cons.prems(1)])
  note f = advance_fields[OF Cons.prems(1), of out]
  have "(1::int) \<le> \<lfloor>maxBatchSize s\<rfloor>"
    using Cons.prems(2) by (subst le_floor_iff) simp
  then have k: "1 \<le> nat \<lfloor>maxBatchSize s\<rfloor>" by linarith
  have "length (queue ?t) = length (queue s) - nat \<lfloor>maxBatchSize s\<rfloor>"
    using f(4) Cons.prems(3) by simp
  then have len: "length (queue ?t) \<le> length outs" using k Cons.prems(4) by simp
  from Cons.IH[OF inv _ f(1) len] Cons.prems(2) f(2,3)
  show ?case unfolding drain_Cons by simp
qed

lemma drain_settles_all:
  assumes inv: "coordinated s \<and> accounted s" and m: "1 \<le> maxBatchSize s"
    and outs: "length (queue s) < length outs"
  shows "quiescent (drain s outs) \<and> accounted (drain s outs)
       \<and> idCounter (drain s outs) = idCounter s
       \<and> pending (drain s outs) = []"
proof -
  from outs obtain out outs' where o: "outs = out # outs'" by (cases outs) auto
  let ?t = "advance s out"
  have tinv: "coordinated ?t \<and> accounted ?t" by (rule advance_invariant[OF inv])
  note f = advance_fields[OF inv, of out]
  have "length (queue ?t) \<le> length (queue s)" using f(4) by simp
  then have len: "length (queue ?t) \<le> length outs'" using outs o by simp
  have m': "1 \<le> maxBatchSize ?t" using m f(3) by simp
  from drain_idle[OF tinv m' f(1) len] f(2)
  have r: "queue (drain s outs) = []" "inflight (drain s outs) = None"
    "coordinated (drain s outs)" "accounted (drain s outs)"
    "idCounter (drain s outs) = idCounter s"
    unfolding o drain_Cons by simp_all
  have "quiescent (drain s outs)"
    using r(1,2,3) by (auto simp: quiescent_def coordinated_def split: if_splits option.splits)
  moreover have "pending (drain s outs) = []" using r(1,2) by (simp add: pending_def)
  ultimately show ?thesis using r(4,5) by simp
qed

text \<open>
  C1 (as amended).  Take a batcher after any sequence of \<open>addRequest\<close> and \<open>clearQueue\<close>
  calls, timer firings and batch completions.  The promise numbers handed out so far are
  \<open>1..idCounter\<close>; none has been settled more than once, and each has been settled exactly
  once unless its request is still queued or in flight, in which case it has not been
  settled yet.  If \<open>maxBatchSize\<close> is at least 1 and from there the event loop runs on (the
  armed timer fires, the batch in flight settles, with any outcomes) for more rounds than
  there are queued requests, the batcher comes to rest and every promise handed out has
  been settled exactly once.
\<close>

theorem every_request_settled_exactly_once:
  assumes reach: "s = run (RequestBatcher_new opts) evs"
  shows "fst (addRequest p opt now s) = Suc (idCounter s)
       \<and> (\<forall>n. resolutions s n \<le> 1)
       \<and> (\<forall>n\<in>{1..idCounter s}.
             resolutions s n = (if n \<in> q_id ` set (pending s) then 0 else 1))
       \<and> (1 \<le> maxBatchSize s \<and> length (queue s) < length outs \<longrightarrow>
             quiescent (drain s outs)
           \<and> idCounter (drain s outs) = idCounter s
           \<and> (\<forall>n\<in>{1..idCounter s}. resolutions (drain s outs) n = 1))"
proof -
  have inv: "coordinated s \<and> accounted s"
    unfolding reach by (rule reachable_invariant)
  have a: "fst (addRequest p opt now s) = Suc (idCounter s)"
    by (simp add: addRequest_def Let_def)
  from inv have acc: "accounted s" by simp
  have b: "\<forall>n. resolutions s n \<le> 1"
    by (intro allI resolutions_le_one[OF acc])
  have c: "\<forall>n\<in>{1..idCounter s}.
             resolutions s n = (if n \<in> q_id ` set (pending s) then 0 else 1)"
    by (intro ballI resolutions_accounted[OF acc])
  have e: "quiescent (drain s outs) \<and> idCounter (drain s outs) = idCounter s
           \<and> (\<forall>n\<in>{1..idCounter s}. resolutions (drain s outs) n = 1)"
    if limit: "1 \<le> maxBatchSize s" and rounds: "length (queue s) < length outs"
  proof -
    from drain_settles_all[OF inv limit rounds]
    have d: "quiescent (drain s outs)" "accounted (drain s outs)"
      "idCounter (drain s outs) = idCounter s" "pending (drain s outs) = []"
      by simp_all
    have "\<forall>n\<in>{1..idCounter s}. resolutions (drain s outs) n = 1"
    proof
      fix n assume "n \<in> {1..idCounter s}"
      then have "n \<in> {1..idCounter (drain s outs)}" using d(3) by simp
      from resolutions_accounted[OF d(2) this] show "resolutions (drain s outs) n = 1"
        using d(4) by simp
    qed
    then show ?thesis using d(1,3) by simp
  qed
  show ?thesis using a b c e by blast
qed

lemma settle_empty_batch: "settle_batch out [] = []"
  by (cases out) (simp_all add: settle_batch_def)

lemma advance_starved:
  assumes inv: "coordinated s \<and> accounted s" and m: "maxBatchSize s < 1"
    and e: "inflight s = None \<or> inflight s = Some []"
  shows "settled (advance s out) = settled s \<and> queue (advance s out) = queue s"
proof -
  from inv have c: "coordinated s" by simp
  have cf: "coordinated (fire s)" using fire_invariant[OF inv] by simp
  have "\<lfloor>maxBatchSize s\<rfloor> < 1" using m by (simp add: floor_less_iff)
  then have k: "nat \<lfloor>maxBatchSize s\<rfloor> = 0" by simp
  have q: "queue (advance s out) = queue s"
    using advance_fields(4)[OF inv, of out] k by simp
  have f: "settled (fire s) = settled s \<and> (inflight (fire s) = None \<or> inflight (fire s) = Some [])"
    using e k by (auto simp: fire_fields[OF c] split: option.splits)
  have "settled (advance s out) = settled (fire s)"
  proof (cases "inflight (fire s)")
    case None
    then show ?thesis by (simp add: advance_def processBatch_resume_def)
  next
    case (Some b)
    then have b: "b = []" using f by simp
    show ?thesis
      unfolding advance_def settles_when_inflight[OF cf Some, of out]
      by (simp add: b settle_empty_batch)
  qed
  then show ?thesis using f q by simp
qed

lemma drain_starved:
  assumes "coordinated s \<and> accounted s" "maxBatchSize s < 1"
    "inflight s = None \<or> inflight s = Some []"
  shows "settled (drain s outs) = settled s \<and> queue (drain s outs) = queue s"
  using assms
proof (induction outs arbitrary: s)
  case Nil
  show ?case by (simp add: drain_def)
next
  case (Cons out outs)
  let ?t = "advance s out"
  have inv: "coordinated ?t \<and> accounted ?t" by (rule advance_invariant[OF Cons.prems(1)])
  note f = advance_fields[OF Cons.prems(1), of out]
  have m: "maxBatchSize ?t < 1" using Cons.prems(2) f(3) by simp
  from Cons.IH[OF inv m] f(1) advance_starved[OF Cons.prems, of out]
  show ?case unfolding drain_Cons by simp
qed

text \<open>
  The amended claim on a trace with a failed batch, requests arriving during processing,
  an immediate dispatch that cancels the zero-delay timer, and \<open>clearQueue\<close>.
\<close>

theorem every_request_settled_exactly_once_witness:
  "1 \<le> maxBatchSize (run (RequestBatcher_new (limit_of 2)) mixed_trace)
   \<and> length (queue (run (RequestBatcher_new (limit_of 2)) mixed_trace))
       < length [Fulfilled [''x'', ''y''] :: (string, string) outcome]
   \<and> idCounter (run (RequestBatcher_new (limit_of 2)) mixed_trace) = 5
   \<and> map q_id (pending (run (RequestBatcher_new (limit_of 2)) mixed_trace)) = [3, 4]
   \<and> resolutions (run (RequestBatcher_new (limit_of 2)) mixed_trace) 3 = 0
   \<and> resolutions (run (RequestBatcher_new (limit_of 2)) mixed_trace) 5 = 1
   \<and> quiescent (drain (run (RequestBatcher_new (limit_of 2)) mixed_trace) [Fulfilled [''x'', ''y'']])
   \<and> resolutions (drain (run (RequestBatcher_new (limit_of 2)) mixed_trace) [Fulfilled [''x'', ''y'']]) 1 = 1
   \<and> resolutions (drain (run (RequestBatcher_new (limit_of 2)) mixed_trace) [Fulfilled [''x'', ''y'']]) 3 = 1
   \<and> resolutions (drain (run (RequestBatcher_new (limit_of 2)) mixed_trace) [Fulfilled [''x'', ''y'']]) 5 = 1
   \<and> settled (drain (run (RequestBatcher_new (limit_of 2)) mixed_trace) [Fulfilled [''x'', ''y'']])
       = [(1, Rejected (Thrown ''down'')), (2, Rejected (Thrown ''down'')),
          (5, Rejected (Error ''stop'')),
          (3, Resolved (Some ''x'')), (4, Resolved (Some ''y''))]"
proof -
  let ?s = "run (RequestBatcher_new (limit_of 2)) mixed_trace :: (unit, string, string) RequestBatcher"
  let ?outs = "[Fulfilled [''x'', ''y''] :: (string, string) outcome]"
  have h1: "1 \<le> maxBatchSize ?s" by code_simp
  have h2: "length (queue ?s) < length ?outs" by code_simp
  have idc: "idCounter ?s = 5" by code_simp
  have pen: "map q_id (pending ?s) = [3, 4]" by code_simp
  have fin: "settled (drain ?s ?outs)
       = [(1, Rejected (Thrown ''down'')), (2, Rejected (Thrown ''down'')),
          (5, Rejected (Error ''stop'')),
          (3, Resolved (Some ''x'')), (4, Resolved (Some ''y''))]" by code_simp
  note inst = every_request_settled_exactly_once[OF refl, of "''z''" "()" 0
      "limit_of 2" mixed_trace ?outs]
  note rest = inst[THEN conjunct2, THEN conjunct2, THEN conjunct2, THEN mp, OF conjI[OF h1 h2]]
  have img: "q_id ` set (pending ?s) = {3, 4}"
    using pen by (metis (no_types, lifting) list.set(1) list.set(2) set_map)
  have now: "\<forall>n\<in>{1..idCounter ?s}. resolutions ?s n = (if n \<in> q_id ` set (pending ?s) then 0 else 1)"
    using inst by blast
  have r3: "resolutions ?s 3 = 0" using now[THEN bspec, of 3] by (simp add: idc img)
  have r5: "resolutions ?s 5 = 1" using now[THEN bspec, of 5] by (simp add: idc img)
  have q: "quiescent (drain ?s ?outs)" using rest by blast
  have later: "\<forall>n\<in>{1..idCounter ?s}. resolutions (drain ?s ?outs) n = 1"
    using rest by blast
  have d1: "resolutions (drain ?s ?outs) 1 = 1" using later[THEN bspec, of 1] by (simp add: idc)
  have d3: "resolutions (drain ?s ?outs) 3 = 1" using later[THEN bspec, of 3] by (simp add: idc)
  have d5: "resolutions (drain ?s ?outs) 5 = 1" using later[THEN bspec, of 5] by (simp add: idc)
  show ?thesis by (intro conjI h1 h2 idc pen r3 r5 q d1 d3 d5 fin)
qed

text \<open>
  C1, the claim as written fails: with \<open>maxBatchSize = -1\<close> the \<open>splice\<close> removes nothing,
  every dispatch hands an empty batch to \<open>processBatchFn\<close>, and the queued request is never
  settled however long the event loop runs (in general by \<open>drain_starved\<close>, here for three
  rounds).
\<close>

theorem nonpositive_batch_size_counterexample:
  "maxBatchSize (run (RequestBatcher_new (limit_of (- 1))) (enqueue_many 1)) = - 1
   \<and> idCounter (run (RequestBatcher_new (limit_of (- 1))) (enqueue_many 1)) = 1
   \<and> map q_id (queue (drain (run (RequestBatcher_new (limit_of (- 1))) (enqueue_many 1))
                          [Fulfilled [], Fulfilled [], Fulfilled []])) = [1]
   \<and> resolutions (drain (run (RequestBatcher_new (limit_of (- 1))) (enqueue_many 1))
                          [Fulfilled [], Fulfilled [], Fulfilled []]) 1 = 0
   \<and> \<not> quiescent (drain (run (RequestBatcher_new (limit_of (- 1))) (enqueue_many 1))
                          [Fulfilled [], Fulfilled [], Fulfilled []])"
  by code_simp


text \<open>
  C3.  When \<open>processBatchFn\<close> fails for the batch in flight, \<open>reject\<close> is called with that
  same error for every request of the batch and for nothing else; none of these promises
  was settled before, and whatever happens afterwards each of them keeps exactly that one
  settlement, so none is ever resolved.
\<close>

theorem batch_failure_rejects_all:
  assumes reach: "s = run (RequestBatcher_new opts) evs"
    and flight: "inflight s = Some batch"
  shows "settled (step s (BatchSettles (Failed e)))
           = settled s @ map (\<lambda>item. (q_id item, Rejected (Thrown e))) batch
       \<and> (\<forall>item\<in>set batch.
             resolutions s (q_id item) = 0
           \<and> filter (\<lambda>x. fst x = q_id item)
                 (settled (run (step s (BatchSettles (Failed e))) evs'))
               = [(q_id item, Rejected (Thrown e))])"
proof -
  let ?t = "step s (BatchSettles (Failed e))"
  have inv: "coordinated s \<and> accounted s"
    unfolding reach by (rule reachable_invariant)
  then have c: "coordinated s" and acc: "accounted s" by simp_all
  have tinv: "coordinated ?t \<and> accounted ?t" by (rule step_invariant[OF inv])
  have st: "settled ?t = settled s @ map (\<lambda>item. (q_id item, Rejected (Thrown e))) batch"
    unfolding settles_when_inflight[OF c flight, of "Failed e"]
    by (simp add: settle_batch_def)
  have each: "resolutions s (q_id item) = 0
           \<and> filter (\<lambda>x. fst x = q_id item) (settled (run ?t evs'))
               = [(q_id item, Rejected (Thrown e))]" if "item \<in> set batch" for item
  proof -
    have p: "q_id item \<in> q_id ` set (pending s)"
      using that flight by (simp add: pending_def)
    moreover have "set (settled_ids s @ map q_id (pending s)) = {1..idCounter s}"
      using acc by (simp add: accounted_def)
    ultimately have "q_id item \<in> {1..idCounter s}" by auto
    from resolutions_accounted[OF acc this] p have z: "resolutions s (q_id item) = 0" by simp
    have "(q_id item, Rejected (Thrown e)) \<in> set (settled ?t)"
      unfolding st using that by simp
    from settlement_final[OF tinv this, of evs'] z show ?thesis by simp
  qed
  show ?thesis using st each by blast
qed

text \<open>Two requests in flight fail with "down"; later events do not touch their promises.\<close>

theorem batch_failure_rejects_all_witness:
  "inflight (run (RequestBatcher_new (limit_of 2)) (enqueue_many 2))
     = Some (enqueued 0 (enqueue_many 2))
   \<and> settled (step (run (RequestBatcher_new (limit_of 2)) (enqueue_many 2))
                   (BatchSettles (Failed ''down'')))
       = [(1, Rejected (Thrown ''down'')), (2, Rejected (Thrown ''down''))]
   \<and> resolutions (run (RequestBatcher_new (limit_of 2)) (enqueue_many 2)) 1 = 0
   \<and> filter (\<lambda>x. fst x = 1)
         (settled (run (step (run (RequestBatcher_new (limit_of 2)) (enqueue_many 2))
                             (BatchSettles (Failed ''down'')))
                       [AddRequest ''c'' () 2, ClearQueue ''stop'',
                        BatchSettles (Fulfilled [''late''])]))
       = [(1, Rejected (Thrown ''down''))]
   \<and> filter (\<lambda>x. fst x = 2)
         (settled (run (step (run (RequestBatcher_new (limit_of 2)) (enqueue_many 2))
                             (BatchSettles (Failed ''down'')))
                       [AddRequest ''c'' () 2, ClearQueue ''stop'',
                        BatchSettles (Fulfilled [''late''])]))
       = [(2, Rejected (Thrown ''down''))]"
proof -
  let ?s = "run (RequestBatcher_new (limit_of 2)) (enqueue_many 2) :: (unit, string, string) RequestBatcher"
  let ?later = "[AddRequest ''c'' () 2, ClearQueue ''stop'', BatchSettles (Fulfilled [''late''])]
                  :: (unit, string, string) event list"
  have fl: "inflight ?s = Some (enqueued 0 (enqueue_many 2))" by code_simp
  have before: "settled ?s = []" by code_simp
  have b: "enqueued 0 (enqueue_many 2)
           = [\<lparr>q_id = 1, q_prompt = ''a'', q_options = (), q_timestamp = 0\<rparr>,
              \<lparr>q_id = 2, q_prompt = ''aa'', q_options = (), q_timestamp = 1\<rparr>]"
    by code_simp
  note inst = batch_failure_rejects_all[OF refl fl, of "''down''" ?later]
  have st: "settled (step ?s (BatchSettles (Failed ''down'')))
       = [(1, Rejected (Thrown ''down'')), (2, Rejected (Thrown ''down''))]"
    using inst[THEN conjunct1] by (simp add: before b)
  note each = inst[THEN conjunct2, THEN bspec]
  have i1: "\<lparr>q_id = 1, q_prompt = ''a'', q_options = (), q_timestamp = 0\<rparr>
              \<in> set (enqueued 0 (enqueue_many 2))" by (simp add: b)
  have i2: "\<lparr>q_id = 2, q_prompt = ''aa'', q_options = (), q_timestamp = 1\<rparr>
              \<in> set (enqueued 0 (enqueue_many 2))" by (simp add: b)
  have r1: "resolutions ?s 1 = 0" using each[OF i1] by simp
  have f1: "filter (\<lambda>x. fst x = 1) (settled (run (step ?s (BatchSettles (Failed ''down''))) ?later))
       = [(1, Rejected (Thrown ''down''))]" using each[OF i1] by simp
  have f2: "filter (\<lambda>x. fst x = 2) (settled (run (step ?s (BatchSettles (Failed ''down''))) ?later))
       = [(2, Rejected (Thrown ''down''))]" using each[OF i2] by simp
  show ?thesis by (intro conjI fl st r1 f1 f2)
qed

lemma take_nonempty:
  assumes "1 \<le> m" "q \<noteq> []"
  shows "take (nat \<lfloor>m :: real\<rfloor>) q \<noteq> []"
proof -
  have "(1::int) \<le> \<lfloor>m\<rfloor>" using assms(1) by (subst le_floor_iff) simp
  then have "0 < nat \<lfloor>m\<rfloor>" by linarith
  then show ?thesis using assms(2) by (cases q) (auto simp: take_Cons')
qed

lemma dispatch_keeps_log:
  assumes l: "dispatch_logged s" and q: "q \<noteq> []"
    and t: "batches t = batches s @ [take (nat \<lfloor>maxBatchSize s\<rfloor>) q]"
      "inflight t = Some (take (nat \<lfloor>maxBatchSize s\<rfloor>) q)"
      "queue t = drop (nat \<lfloor>maxBatchSize s\<rfloor>) q"
      "maxBatchSize t = maxBatchSize s"
    and srt: "sorted_wrt (<) (map q_id (concat (batches s) @ q))"
    and bnd: "\<forall>r\<in>set (concat (batches s) @ q). q_id r \<le> idCounter t"
  shows "dispatch_logged t"
proof -
  have cat: "concat (batches t) @ queue t = concat (batches s) @ q"
    by (simp add: t)
  have "\<forall>b\<in>set (batches t). length b \<le> nat \<lfloor>maxBatchSize t\<rfloor> \<and> (1 \<le> maxBatchSize t \<longrightarrow> b \<noteq> [])"
    using l take_nonempty[OF _ q, of "maxBatchSize s"] by (auto simp: t dispatch_logged_def)
  moreover have "case inflight t of None \<Rightarrow> True
          | Some batch \<Rightarrow> batches t \<noteq> [] \<and> last (batches t) = batch"
    by (simp add: t)
  ultimately show ?thesis
    unfolding dispatch_logged_def cat using srt bnd by blast
qed

lemma new_logged: "dispatch_logged (RequestBatcher_new opts)"
  by (simp add: dispatch_logged_def RequestBatcher_new_def)

lemma step_timer_logged:
  assumes c: "coordinated s" and l: "dispatch_logged s"
  shows "dispatch_logged (step s (TimerFires handle))"
proof (cases "handle \<in> fst ` set (timers s)")
  case True
  note f = timer_fires_when_armed[OF c True]
  show ?thesis
  proof (rule dispatch_keeps_log[OF l f(4)])
    show "batches (step s (TimerFires handle))
            = batches s @ [take (nat \<lfloor>maxBatchSize s\<rfloor>) (queue s)]"
      "inflight (step s (TimerFires handle)) = Some (take (nat \<lfloor>maxBatchSize s\<rfloor>) (queue s))"
      "queue (step s (TimerFires handle)) = drop (nat \<lfloor>maxBatchSize s\<rfloor>) (queue s)"
      unfolding f(1) by simp_all
    show "maxBatchSize (step s (TimerFires handle)) = maxBatchSize s"
      by (rule maxBatchSize_step)
    show "sorted_wrt (<) (map q_id (concat (batches s) @ queue s))"
      using l by (simp add: dispatch_logged_def)
    show "\<forall>r\<in>set (concat (batches s) @ queue s). q_id r \<le> idCounter (step s (TimerFires handle))"
      using l step_timer_pending[OF c, of handle] by (simp add: dispatch_logged_def)
  qed
next
  case False
  then show ?thesis using l by simp
qed

lemma step_settles_logged:
  assumes c: "coordinated s" and l: "dispatch_logged s"
  shows "dispatch_logged (step s (BatchSettles out))"
proof (cases "inflight s")
  case None
  then show ?thesis using l by (simp add: processBatch_resume_def)
next
  case (Some batch)
  show ?thesis
    using l Some unfolding settles_when_inflight[OF c Some, of out]
    by (auto simp: dispatch_logged_def)
qed

lemma step_clear_logged:
  assumes c: "coordinated s" and l: "dispatch_logged s"
  shows "dispatch_logged (step s (ClearQueue reason))"
proof -
  have "sorted_wrt (<) (map q_id (concat (batches s)))"
    using l by (simp add: dispatch_logged_def sorted_wrt_append)
  then show ?thesis
    using l unfolding step.simps clearQueue_fields[OF c]
    by (simp add: dispatch_logged_def split: option.splits)
qed

lemma step_add_logged:
  assumes c: "coordinated s" and l: "dispatch_logged s"
  shows "dispatch_logged (step s (AddRequest p opt now))"
proof -
  let ?r = "\<lparr>q_id = Suc (idCounter s), q_prompt = p, q_options = opt, q_timestamp = now\<rparr>"
  let ?q = "queue s @ [?r]"
  from l have srt: "sorted_wrt (<) (map q_id (concat (batches s) @ queue s))"
    and bnd: "\<forall>r\<in>set (concat (batches s) @ queue s). q_id r \<le> idCounter s"
    by (simp_all add: dispatch_logged_def)
  have srt': "sorted_wrt (<) (map q_id (concat (batches s) @ ?q))"
  proof -
    have "sorted_wrt (<) (map q_id (concat (batches s) @ queue s) @ [Suc (idCounter s)])"
      unfolding sorted_wrt_append using srt bnd by (auto simp: less_Suc_eq_le)
    then show ?thesis by simp
  qed
  have bnd': "\<forall>r\<in>set (concat (batches s) @ ?q). q_id r \<le> Suc (idCounter s)"
  proof
    fix r assume "r \<in> set (concat (batches s) @ ?q)"
    then have "r \<in> set (concat (batches s) @ queue s) \<or> r = ?r" by auto
    then show "q_id r \<le> Suc (idCounter s)"
    proof
      assume "r \<in> set (concat (batches s) @ queue s)"
      then have "q_id r \<le> idCounter s" using bnd by blast
      then show ?thesis by simp
    next
      assume "r = ?r"
      then show ?thesis by simp
    qed
  qed
  show ?thesis
  proof (cases "isProcessing s")
    case True
    show ?thesis
      using l srt' bnd' unfolding step.simps addRequest_busy[OF True]
      by (simp add: dispatch_logged_def split: option.splits)
  next
    case False
    show ?thesis
    proof (cases "real (Suc (length (queue s))) \<ge> maxBatchSize s")
      case True
      note d = addRequest_dispatches[OF c False True, of p opt now]
      show ?thesis
      proof (rule dispatch_keeps_log[OF l, of ?q])
        show "?q \<noteq> []" by simp
        show "batches (step s (AddRequest p opt now))
                = batches s @ [take (nat \<lfloor>maxBatchSize s\<rfloor>) ?q]"
          "inflight (step s (AddRequest p opt now)) = Some (take (nat \<lfloor>maxBatchSize s\<rfloor>) ?q)"
          "queue (step s (AddRequest p opt now)) = drop (nat \<lfloor>maxBatchSize s\<rfloor>) ?q"
          unfolding step.simps d by simp_all
        show "maxBatchSize (step s (AddRequest p opt now)) = maxBatchSize s"
          by (rule maxBatchSize_step)
        show "sorted_wrt (<) (map q_id (concat (batches s) @ ?q))" by (rule srt')
        show "\<forall>r\<in>set (concat (batches s) @ ?q). q_id r \<le> idCounter (step s (AddRequest p opt now))"
          using bnd' step_add_pending[OF c, of p opt now] by simp
      qed
    next
      case small: False
      have nf: "inflight s = None" using c False by (simp add: coordinated_def)
      show ?thesis
        using l srt' bnd' nf unfolding step.simps addRequest_waits[OF c False small]
        by (simp add: dispatch_logged_def)
    qed
  qed
qed

lemma run_logged:
  "dispatch_logged (run (RequestBatcher_new opts) evs)"
proof (induction evs rule: rev_induct)
  case Nil
  show ?case by (simp add: run_def new_logged)
next
  case (snoc ev evs)
  have c: "coordinated (run (RequestBatcher_new opts) evs)"
    using reachable_invariant[of opts evs] by simp
  show ?case
    unfolding run_snoc
  proof (cases ev)
    case (AddRequest p opt now)
    show "dispatch_logged (step (run (RequestBatcher_new opts) evs) ev)"
      unfolding AddRequest by (rule step_add_logged[OF c snoc])
  next
    case (ClearQueue reason)
    show "dispatch_logged (step (run (RequestBatcher_new opts) evs) ev)"
      unfolding ClearQueue by (rule step_clear_logged[OF c snoc])
  next
    case (TimerFires handle)
    show "dispatch_logged (step (run (RequestBatcher_new opts) evs) ev)"
      unfolding TimerFires by (rule step_timer_logged[OF c snoc])
  next
    case (BatchSettles out)
    show "dispatch_logged (step (run (RequestBatcher_new opts) evs) ev)"
      unfolding BatchSettles by (rule step_settles_logged[OF c snoc])
  qed
qed

lemma enqueued_append:
  "enqueued n (evs @ evs') = enqueued n evs @ enqueued (n + length (enqueued n evs)) evs'"
  by (induction n evs rule: enqueued.induct) simp_all

lemma step_fifo:
  assumes c: "coordinated s" and nc: "\<not> is_clear ev"
  shows "concat (batches (step s ev)) @ queue (step s ev)
           = concat (batches s) @ queue s @ enqueued (idCounter s) [ev]
       \<and> idCounter (step s ev) = idCounter s + length (enqueued (idCounter s) [ev])"
proof (cases ev)
  case (AddRequest p opt now)
  show ?thesis
  proof (cases "isProcessing s")
    case True
    show ?thesis unfolding AddRequest step.simps addRequest_busy[OF True] by simp
  next
    case False
    show ?thesis
    proof (cases "real (Suc (length (queue s))) \<ge> maxBatchSize s")
      case True
      show ?thesis
        unfolding AddRequest step.simps addRequest_dispatches[OF c False True]
        by (simp del: take_append drop_append)
    next
      case small: False
      show ?thesis
        unfolding AddRequest step.simps addRequest_waits[OF c False small] by simp
    qed
  qed
next
  case (ClearQueue reason)
  then show ?thesis using nc by simp
next
  case (TimerFires handle)
  show ?thesis
  proof (cases "handle \<in> fst ` set (timers s)")
    case True
    show ?thesis unfolding TimerFires timer_fires_when_armed(1)[OF c True] by simp
  next
    case False
    then show ?thesis by (simp add: TimerFires)
  qed
next
  case (BatchSettles out)
  show ?thesis
  proof (cases "inflight s")
    case None
    then show ?thesis by (simp add: BatchSettles processBatch_resume_def)
  next
    case (Some batch)
    show ?thesis unfolding BatchSettles settles_when_inflight[OF c Some, of out] by simp
  qed
qed

lemma run_fifo:
  assumes "\<forall>ev\<in>set evs. \<not> is_clear ev"
  shows "concat (batches (run (RequestBatcher_new opts) evs)) @ queue (run (RequestBatcher_new opts) evs)
           = enqueued 0 evs
       \<and> idCounter (run (RequestBatcher_new opts) evs) = length (enqueued 0 evs)"
  using assms
proof (induction evs rule: rev_induct)
  case Nil
  show ?case by (simp add: run_def RequestBatcher_new_def)
next
  case (snoc ev evs)
  let ?s = "run (RequestBatcher_new opts) evs"
  have c: "coordinated ?s" using reachable_invariant[of opts evs] by simp
  from snoc.prems have nc: "\<not> is_clear ev" and rest: "\<forall>ev\<in>set evs. \<not> is_clear ev" by simp_all
  from snoc.IH[OF rest] have ih: "concat (batches ?s) @ queue ?s = enqueued 0 evs"
    "idCounter ?s = length (enqueued 0 evs)" by simp_all
  from step_fifo[OF c nc]
  have "concat (batches (step ?s ev)) @ queue (step ?s ev)
           = (concat (batches ?s) @ queue ?s) @ enqueued (idCounter ?s) [ev]"
    "idCounter (step ?s ev) = idCounter ?s + length (enqueued (idCounter ?s) [ev])"
    by simp_all
  then show ?case
    unfolding run_snoc ih enqueued_append[of 0 evs "[ev]"] by simp
qed

lemma settle_batch_by_index:
  "settle_batch (Fulfilled results) batch
   = map (\<lambda>index. (q_id (batch ! index), Resolved (nth_opt results index))) [0..<length batch]"
  unfolding settle_batch_def by (simp only: outcome.case) (rule nth_equalityI, simp_all)

lemma length_le_limit:
  assumes "length b \<le> nat \<lfloor>m :: real\<rfloor>" "0 \<le> m"
  shows "real (length b) \<le> m"
proof -
  have "0 \<le> \<lfloor>m\<rfloor>" using assms(2) by simp
  then have "real (nat \<lfloor>m\<rfloor>) = of_int \<lfloor>m\<rfloor>" by simp
  moreover have "of_int \<lfloor>m\<rfloor> \<le> m" by (rule of_int_floor_le)
  moreover have "real (length b) \<le> real (nat \<lfloor>m\<rfloor>)" using assms(1) by (simp only: of_nat_le_iff)
  ultimately show ?thesis by linarith
qed

text \<open>
  C2 (as amended).  After any sequence of events: every batch handed to \<open>processBatchFn\<close>
  has at most \<open>maxBatchSize\<close> requests when \<open>maxBatchSize\<close> is not negative, and is
  non-empty when \<open>maxBatchSize\<close> is at least 1; the batches in call order followed by the
  queue are in enqueue order, and when \<open>clearQueue\<close> was never called they are exactly the
  enqueued requests, cut into consecutive groups; the batch in flight is the one
  \<open>processBatchFn\<close> was last called with, prompts and options in order, and when it succeeds
  with \<open>results\<close> the request at each index is resolved with the result at the same index.
\<close>

theorem batches_are_fifo_groups:
  assumes reach: "s = run (RequestBatcher_new opts) evs"
  shows "(0 \<le> maxBatchSize s \<longrightarrow> (\<forall>b\<in>set (batches s). real (length b) \<le> maxBatchSize s))
     \<and> (1 \<le> maxBatchSize s \<longrightarrow> (\<forall>b\<in>set (batches s). b \<noteq> []))
     \<and> sorted_wrt (<) (map q_id (concat (batches s) @ queue s))
     \<and> ((\<forall>ev\<in>set evs. \<not> is_clear ev) \<longrightarrow> concat (batches s) @ queue s = enqueued 0 evs)
     \<and> (\<forall>batch. inflight s = Some batch \<longrightarrow>
           last (calls s) = (map q_prompt batch, map q_options batch)
         \<and> (\<forall>results. settled (step s (BatchSettles (Fulfilled results)))
              = settled s @ map (\<lambda>index. (q_id (batch ! index),
                                             Resolved (nth_opt results index)))
                                [0..<length batch]))"
proof -
  have c: "coordinated s" unfolding reach using reachable_invariant[of opts evs] by simp
  have l: "dispatch_logged s" unfolding reach by (rule run_logged)
  have a: "\<forall>b\<in>set (batches s). real (length b) \<le> maxBatchSize s" if "0 \<le> maxBatchSize s"
  proof
    fix b assume "b \<in> set (batches s)"
    with l have "length b \<le> nat \<lfloor>maxBatchSize s\<rfloor>"
      by (simp add: dispatch_logged_def)
    then show "real (length b) \<le> maxBatchSize s"
      using that by (rule length_le_limit)
  qed
  have a': "\<forall>b\<in>set (batches s). b \<noteq> []" if "1 \<le> maxBatchSize s"
    using l that by (simp add: dispatch_logged_def)
  have b: "sorted_wrt (<) (map q_id (concat (batches s) @ queue s))"
    using l by (simp add: dispatch_logged_def)
  have f: "concat (batches s) @ queue s = enqueued 0 evs" if "\<forall>ev\<in>set evs. \<not> is_clear ev"
    unfolding reach using run_fifo[OF that, of opts] by simp
  have d: "last (calls s) = (map q_prompt batch, map q_options batch)
         \<and> (\<forall>results. settled (step s (BatchSettles (Fulfilled results)))
              = settled s @ map (\<lambda>index. (q_id (batch ! index),
                                             Resolved (nth_opt results index)))
                                [0..<length batch])" if i: "inflight s = Some batch" for batch
  proof -
    from l i have "batches s \<noteq> []" "last (batches s) = batch"
      by (simp_all add: dispatch_logged_def)
    then have "last (calls s) = (map q_prompt batch, map q_options batch)"
      by (simp add: calls_def last_map)
    moreover have "settled (step s (BatchSettles (Fulfilled results)))
              = settled s @ map (\<lambda>index. (q_id (batch ! index),
                                             Resolved (nth_opt results index)))
                                [0..<length batch]" for results
      unfolding settles_when_inflight[OF c i, of "Fulfilled results"]
      by (simp add: settle_batch_by_index)
    ultimately show ?thesis by blast
  qed
  show ?thesis using a a' b f d by blast
qed

text \<open>
  The specification's example: 25 requests with \<open>maxBatchSize = 10\<close> and an echoing
  \<open>processBatchFn\<close>.  The theorem is used in the state where the second batch is in flight;
  run to the end, the batches have sizes 10, 10, 5 and all 25 promises are resolved with
  their own prompts.
\<close>

theorem batches_are_fifo_groups_witness:
  "1 \<le> maxBatchSize (run (RequestBatcher_new (limit_of 10)) second_batch_trace)
   \<and> list_all (\<lambda>ev. \<not> is_clear ev) second_batch_trace
   \<and> list_all (\<lambda>b. b \<noteq> []
           \<and> real (length b) \<le> maxBatchSize (run (RequestBatcher_new (limit_of 10)) second_batch_trace))
        (batches (run (RequestBatcher_new (limit_of 10)) second_batch_trace))
   \<and> map length (batches (run (RequestBatcher_new (limit_of 10)) second_batch_trace)) = [10, 10]
   \<and> concat (batches (run (RequestBatcher_new (limit_of 10)) second_batch_trace))
        @ queue (run (RequestBatcher_new (limit_of 10)) second_batch_trace)
       = enqueued 0 second_batch_trace
   \<and> inflight (run (RequestBatcher_new (limit_of 10)) second_batch_trace)
       = Some (take 10 (drop 10 (enqueued 0 second_batch_trace)))
   \<and> last (calls (run (RequestBatcher_new (limit_of 10)) second_batch_trace))
       = (map q_prompt (take 10 (drop 10 (enqueued 0 second_batch_trace))), replicate 10 ())
   \<and> settled (step (run (RequestBatcher_new (limit_of 10)) second_batch_trace)
                   (BatchSettles (echo
                      (map q_prompt (take 10 (drop 10 (enqueued 0 second_batch_trace))))
                      (replicate 10 ()))))
       = map (\<lambda>i. (Suc i, Resolved (Some (replicate (Suc i) CHR ''a'')))) [0..<20]
   \<and> map length (batches ((serve echo ^^ 3)
         (run (RequestBatcher_new (limit_of 10)) (enqueue_many 25)))) = [10, 10, 5]
   \<and> settled ((serve echo ^^ 3) (run (RequestBatcher_new (limit_of 10)) (enqueue_many 25)))
       = map (\<lambda>i. (Suc i, Resolved (Some (replicate (Suc i) CHR ''a'')))) [0..<25]"
proof -
  let ?s = "run (RequestBatcher_new (limit_of 10)) second_batch_trace
              :: (unit, string, string) RequestBatcher"
  let ?batch = "take 10 (drop 10 (enqueued 0 second_batch_trace))"
  have h1: "1 \<le> maxBatchSize ?s" by code_simp
  have h2: "list_all (\<lambda>ev. \<not> is_clear ev) second_batch_trace" by code_simp
  then have h2': "\<forall>ev\<in>set second_batch_trace. \<not> is_clear ev" by (simp add: list_all_iff)
  have fl: "inflight ?s = Some ?batch" by code_simp
  have sizes: "map length (batches ?s) = [10, 10]" by code_simp
  have opts: "map q_options ?batch = replicate 10 ()" by code_simp
  have before: "settled ?s = map (\<lambda>i. (Suc i, Resolved (Some (replicate (Suc i) CHR ''a'')))) [0..<10]"
    by code_simp
  have new: "map (\<lambda>index. (q_id (?batch ! index),
                   Resolved (nth_opt (map q_prompt ?batch) index) :: (string, string) settlement))
                 [0..<length ?batch]
             = map (\<lambda>i. (Suc i, Resolved (Some (replicate (Suc i) CHR ''a'')))) [10..<20]"
    by code_simp
  have split: "map (\<lambda>i. (Suc i, Resolved (Some (replicate (Suc i) CHR ''a'')) :: (string, string) settlement)) [0..<20]
      = map (\<lambda>i. (Suc i, Resolved (Some (replicate (Suc i) CHR ''a'')))) [0..<10]
        @ map (\<lambda>i. (Suc i, Resolved (Some (replicate (Suc i) CHR ''a'')))) [10..<20]"
    by code_simp
  have h0: "0 \<le> maxBatchSize ?s" using h1 by simp
  note inst = batches_are_fifo_groups[OF refl, of "limit_of 10" second_batch_trace]
  note bounded = inst[THEN conjunct1, THEN mp, OF h0]
  note nonempty = inst[THEN conjunct2, THEN conjunct1, THEN mp, OF h1]
  have groups: "list_all (\<lambda>b. b \<noteq> [] \<and> real (length b) \<le> maxBatchSize ?s) (batches ?s)"
    unfolding list_all_iff using bounded nonempty by blast
  have fifo: "concat (batches ?s) @ queue ?s = enqueued 0 second_batch_trace"
    by (rule inst[THEN conjunct2, THEN conjunct2, THEN conjunct2, THEN conjunct1, THEN mp, OF h2'])
  note flight = inst[THEN conjunct2, THEN conjunct2, THEN conjunct2, THEN conjunct2,
      THEN spec, THEN mp, OF fl]
  have call: "last (calls ?s) = (map q_prompt ?batch, replicate 10 ())"
    using flight[THEN conjunct1] by (simp only: opts)
  have res: "settled (step ?s (BatchSettles (echo (map q_prompt ?batch) (replicate 10 ()))))
       = map (\<lambda>i. (Suc i, Resolved (Some (replicate (Suc i) CHR ''a'')))) [0..<20]"
    unfolding echo_def flight[THEN conjunct2, THEN spec] before new split ..
  have all_sizes: "map length (batches ((serve echo ^^ 3)
         (run (RequestBatcher_new (limit_of 10)) (enqueue_many 25)))) = [10, 10, 5]"
    by code_simp
  have all_res: "settled ((serve echo ^^ 3) (run (RequestBatcher_new (limit_of 10)) (enqueue_many 25)))
       = map (\<lambda>i. (Suc i, Resolved (Some (replicate (Suc i) CHR ''a'')))) [0..<25]"
    by code_simp
  show ?thesis by (intro conjI h1 h2 groups sizes fifo fl call res all_sizes all_res)
qed

text \<open>
  C2, the claim as written fails: with \<open>maxBatchSize = -1\<close> the group handed to
  \<open>processBatchFn\<close> is empty, which is more than \<open>maxBatchSize\<close> prompts, and the enqueued
  request never becomes part of a group, so it is never resolved.
\<close>

theorem negative_batch_size_groups_counterexample:
  "maxBatchSize (run (RequestBatcher_new (limit_of (- 1))) (enqueue_many 1)) = - 1
   \<and> calls (run (RequestBatcher_new (limit_of (- 1))) (enqueue_many 1)) = [([], [])]
   \<and> \<not> real (length (hd (batches (run (RequestBatcher_new (limit_of (- 1))) (enqueue_many 1)))))
         \<le> maxBatchSize (run (RequestBatcher_new (limit_of (- 1))) (enqueue_many 1))
   \<and> calls ((serve echo ^^ 3) (run (RequestBatcher_new (limit_of (- 1))) (enqueue_many 1)))
       = [([], []), ([], []), ([], [])]
   \<and> map q_prompt (queue ((serve echo ^^ 3)
         (run (RequestBatcher_new (limit_of (- 1))) (enqueue_many 1)))) = [''a'']
   \<and> settled ((serve echo ^^ 3) (run (RequestBatcher_new (limit_of (- 1))) (enqueue_many 1))) = []"
  by code_simp

end
